theory Spec2Isabelle
  imports Complex_Main
begin

section \<open>Protocol data\<close>

text \<open>
  The worker of \<^verbatim>\<open>worker.cpp\<close> (the second unit of \<^verbatim>\<open>src/src/main.cpp\<close>) talks to its
  engine over one channel. A session identifier (\<^verbatim>\<open>unique_id_t\<close>) is an opaque token of
  which the code only uses equality; it is a string here.
\<close>

type_synonym unique_id_t = string

text \<open>
  \<^verbatim>\<open>error_code\<close> is declared by the cocaine API headers, which are not part of the
  sources; \<^verbatim>\<open>worker.cpp\<close> names one value of it, \<^verbatim>\<open>invocation_error\<close>, and an application
  may pass any other.
\<close>

datatype error_code = invocation_error | other_error int

datatype reasons = normal | abnormal

text \<open>
  The messages the worker sends (\<^verbatim>\<open>send<rpc::...>\<close>), with their payloads, and the
  messages the drain loop receives. The integer type tags (\<^verbatim>\<open>event_traits<...>::id\<close>) live
  in the cocaine headers, which are not part of the sources: a received message is one of
  the five the \<^verbatim>\<open>switch\<close> names, or \<open>recv_unknown\<close> with a tag that is none of theirs.
\<close>

datatype rpc =
    heartbeat
  | suicide reasons string
  | chunk unique_id_t string
  | error unique_id_t error_code string
  | choke unique_id_t

datatype message =
    recv_heartbeat
  | recv_invoke unique_id_t string
  | recv_chunk unique_id_t string
  | recv_choke unique_id_t
  | recv_terminate
  | recv_unknown int

text \<open>\<^verbatim>\<open>cocaine::error_t\<close>, the exception the adapter throws, with its message.\<close>

datatype error_t = error_t string

section \<open>The upstream adapter\<close>

datatype state_t = state_open | state_closed

record upstream_t =
  m_id :: unique_id_t
  m_state :: state_t

text \<open>The constructor: \<^verbatim>\<open>m_state(state_t::open)\<close>.\<close>

definition new_upstream :: "unique_id_t \<Rightarrow> upstream_t" where
  "new_upstream sid = \<lparr>m_id = sid, m_state = state_open\<rparr>"

text \<open>
  Each operation returns the adapter after the call and the messages it handed to
  \<^verbatim>\<open>worker_t::send\<close>, in order, or \<open>Inl\<close> of the exception it threw. A call that throws has
  changed nothing: the \<^verbatim>\<open>throw\<close> is the only statement of the \<^verbatim>\<open>closed\<close> branch.
\<close>

definition push :: "upstream_t \<Rightarrow> string \<Rightarrow> error_t + upstream_t \<times> rpc list" where
  "push u data =
     (case m_state u of
        state_open \<Rightarrow> Inr (u, [chunk (m_id u) data])
      | state_closed \<Rightarrow> Inl (error_t ''the stream has been closed''))"

definition error_upstream ::
  "upstream_t \<Rightarrow> error_code \<Rightarrow> string \<Rightarrow> error_t + upstream_t \<times> rpc list" where
  "error_upstream u code message =
     (case m_state u of
        state_open \<Rightarrow>
          Inr (u\<lparr>m_state := state_closed\<rparr>, [error (m_id u) code message, choke (m_id u)])
      | state_closed \<Rightarrow> Inl (error_t ''the stream has been closed''))"

definition close :: "upstream_t \<Rightarrow> error_t + upstream_t \<times> rpc list" where
  "close u =
     (case m_state u of
        state_open \<Rightarrow> Inr (u\<lparr>m_state := state_closed\<rparr>, [choke (m_id u)])
      | state_closed \<Rightarrow> Inl (error_t ''the stream has been closed''))"

text \<open>
  The destructor calls \<^verbatim>\<open>close()\<close> when the adapter is not closed. \<^verbatim>\<open>close()\<close> cannot throw
  there, so the \<open>Inl\<close> branch below is never taken (lemma \<open>destroy_open\<close>).
\<close>

definition destroy :: "upstream_t \<Rightarrow> upstream_t \<times> rpc list" where
  "destroy u =
     (if m_state u \<noteq> state_closed
      then (case close u of Inr r \<Rightarrow> r | Inl e \<Rightarrow> (u, []))
      else (u, []))"

text \<open>A call through the \<^verbatim>\<open>api::stream_t\<close> interface, as a value.\<close>

datatype stream_call = call_push string | call_error error_code string | call_close

fun perform :: "upstream_t \<Rightarrow> stream_call \<Rightarrow> error_t + upstream_t \<times> rpc list" where
  "perform u (call_push data) = push u data"
| "perform u (call_error code message) = error_upstream u code message"
| "perform u call_close = close u"

text \<open>
  A caller that makes the calls \<open>cs\<close> one after the other and goes on after an
  exception: the adapter at the end, and everything emitted.
\<close>

fun perform_all :: "upstream_t \<Rightarrow> stream_call list \<Rightarrow> upstream_t \<times> rpc list" where
  "perform_all u [] = (u, [])"
| "perform_all u (c # cs) =
     (case perform u c of
        Inl e \<Rightarrow> perform_all u cs
      | Inr (u', out) \<Rightarrow> (case perform_all u' cs of (u'', out') \<Rightarrow> (u'', out @ out')))"

fun is_terminal_call :: "stream_call \<Rightarrow> bool" where
  "is_terminal_call (call_push data) = False"
| "is_terminal_call (call_error code message) = True"
| "is_terminal_call call_close = True"

section \<open>The application side\<close>

text \<open>
  The sandbox and the downstream handles it returns are not part of the sources; the
  worker only calls them: \<^verbatim>\<open>m_sandbox->invoke(event, upstream)\<close>,
  \<^verbatim>\<open>downstream->push(data, size)\<close> and \<^verbatim>\<open>downstream->close()\<close>. A call into the application
  may throw, which the worker catches as \<^verbatim>\<open>const std::exception&\<close> (with its \<^verbatim>\<open>what()\<close>) or
  by \<^verbatim>\<open>catch(...)\<close>.
\<close>

datatype exn = std_exception string | other_exception

fun what :: "exn \<Rightarrow> string" where
  "what (std_exception message) = message"
| "what other_exception = ''unexpected exception''"

text \<open>
  The application holds the \<^verbatim>\<open>boost::shared_ptr\<close> to the adapter it was given at
  \<^verbatim>\<open>invoke\<close>: it can call the adapter through it, and it can let go of it. Adapters are
  named by the number of their creation.
\<close>

datatype app_action = app_call nat stream_call | app_release nat

text \<open>
  What the application did in one call the worker made into it: its own calls, in
  order; the exception it threw, if any; for \<^verbatim>\<open>invoke\<close>, the downstream handle it returned
  and whether it kept the \<^verbatim>\<open>upstream\<close> pointer it was passed. The worker does not choose
  any of this, so it is an input of the dispatch step.
\<close>

record app_run =
  calls :: "app_action list"
  thrown :: "exn option"
  returned :: nat
  retains :: bool

text \<open>The calls the worker made into the application, kept as a trace.\<close>

datatype sandbox_call =
    sandbox_invoke string nat
  | downstream_push nat string
  | downstream_close nat

section \<open>The worker\<close>

text \<open>
  Modelled from the spec: \<^verbatim>\<open>io_pair_t\<close> is declared in \<^verbatim>\<open>worker.hpp\<close>, which is not part of the
  sources. It is the stream pair of a session, an upstream and a downstream; the code
  fills it with two shared pointers. The first is the adapter's number here, the second
  names the application's handle.
\<close>

record io_pair_t =
  upstream :: nat
  downstream :: nat

text \<open>
  An adapter behind its \<^verbatim>\<open>boost::shared_ptr\<close>: the object, the number of pointers to it
  the worker holds (the local \<^verbatim>\<open>upstream\<close> of the \<^verbatim>\<open>invoke\<close> case, and the copy in the
  table), and whether the application holds one. When the last pointer goes the
  destructor runs. Storage is never reused: a destroyed adapter stays where it was,
  closed and without owners.
\<close>

record shared_upstream =
  obj :: upstream_t
  worker_refs :: nat
  app_ref :: bool

record profile_t =
  heartbeat_timeout :: real

text \<open>
  An \<^verbatim>\<open>ev::timer\<close>: \<^verbatim>\<open>start(after)\<close> arms it to fire \<open>after\<close> seconds from the loop's current
  time. Times are \<^verbatim>\<open>ev_tstamp\<close>, a \<^verbatim>\<open>double\<close>; they are reals here.
\<close>

record ev_timer =
  active :: bool
  fires_at :: real

definition timer_stop :: "ev_timer \<Rightarrow> ev_timer" where
  "timer_stop t = t\<lparr>active := False\<rparr>"

definition timer_start :: "real \<Rightarrow> real \<Rightarrow> ev_timer \<Rightarrow> ev_timer" where
  "timer_start now after t = t\<lparr>active := True, fires_at := now + after\<rparr>"

datatype priority = debug_priority | warning_priority | error_priority

text \<open>
  Modelled from the spec: the members of \<^verbatim>\<open>worker_t\<close> and the type \<^verbatim>\<open>stream_map_t\<close> of
  \<^verbatim>\<open>m_streams\<close> are declared in \<^verbatim>\<open>worker.hpp\<close>, which is not part of the sources. The session
  table is a mapping from session identifier to stream pair. Of the other members the
  state has what the code of \<^verbatim>\<open>worker.cpp\<close> reads and writes: \<open>sent\<close> is what was handed to
  the channel for sending, \<open>logged\<close> the log lines written (priority and format string),
  \<open>into_app\<close> the calls made into the application, \<open>loop_now\<close> the event loop's current
  time, \<open>loop_running\<close> false once \<^verbatim>\<open>unloop\<close> was called, \<open>read_event_fed\<close> true once a read event
  was fed to the loop.
\<close>

record worker_t =
  worker_id :: string
  m_profile :: profile_t
  m_streams :: "unique_id_t \<rightharpoonup> io_pair_t"
  objects :: "nat \<Rightarrow> shared_upstream"
  next_object :: nat
  sent :: "rpc list"
  logged :: "(priority \<times> string) list"
  into_app :: "sandbox_call list"
  m_disown_timer :: ev_timer
  loop_now :: real
  loop_running :: bool
  read_event_fed :: bool

text \<open>
  Modelled from the spec: \<^verbatim>\<open>worker_t::send\<close> is a template of \<^verbatim>\<open>worker.hpp\<close>, which is not part
  of the sources. By the specification a message that is sent is appended to the
  outbound side of the control channel; \<open>send\<close> does so for messages sent one after the
  other.
\<close>

definition send :: "rpc list \<Rightarrow> worker_t \<Rightarrow> worker_t" where
  "send out w = w\<lparr>sent := sent w @ out\<rparr>"

definition log :: "priority \<Rightarrow> string \<Rightarrow> worker_t \<Rightarrow> worker_t" where
  "log p line w = w\<lparr>logged := logged w @ [(p, line)]\<rparr>"

definition entered :: "sandbox_call \<Rightarrow> worker_t \<Rightarrow> worker_t" where
  "entered c w = w\<lparr>into_app := into_app w @ [c]\<rparr>"

text \<open>A call on the adapter number \<open>a\<close>; its messages go out through the worker.\<close>

definition call_upstream :: "nat \<Rightarrow> stream_call \<Rightarrow> worker_t \<Rightarrow> error_t + worker_t" where
  "call_upstream a c w =
     (case perform (obj (objects w a)) c of
        Inl e \<Rightarrow> Inl e
      | Inr (u, out) \<Rightarrow>
          Inr (send out (w\<lparr>objects := (objects w)(a := (objects w a)\<lparr>obj := u\<rparr>)\<rparr>)))"

text \<open>The destructor of adapter \<open>a\<close> runs once nobody points to it.\<close>

definition reap :: "nat \<Rightarrow> worker_t \<Rightarrow> worker_t" where
  "reap a w =
     (if worker_refs (objects w a) = 0 \<and> \<not> app_ref (objects w a)
      then (case destroy (obj (objects w a)) of
              (u, out) \<Rightarrow>
                send out (w\<lparr>objects := (objects w)(a := (objects w a)\<lparr>obj := u\<rparr>)\<rparr>))
      else w)"

text \<open>One of the worker's pointers to adapter \<open>a\<close> goes out of scope.\<close>

definition unref :: "nat \<Rightarrow> worker_t \<Rightarrow> worker_t" where
  "unref a w =
     reap a (w\<lparr>objects :=
       (objects w)(a := (objects w a)\<lparr>worker_refs := worker_refs (objects w a) - 1\<rparr>)\<rparr>)"

text \<open>
  What the application does through a pointer it holds. An exception of the adapter
  goes to the application, which called; the worker's state is as before the call. When
  the worker lets go of a downstream handle, what the handle's destructor does (letting
  go of the adapter, for one) is an action of the application as well.
\<close>

fun app_step :: "worker_t \<Rightarrow> app_action \<Rightarrow> worker_t" where
  "app_step w (app_call a c) =
     (if app_ref (objects w a)
      then (case call_upstream a c w of Inl e \<Rightarrow> w | Inr w' \<Rightarrow> w')
      else w)"
| "app_step w (app_release a) =
     (if app_ref (objects w a)
      then reap a (w\<lparr>objects := (objects w)(a := (objects w a)\<lparr>app_ref := False\<rparr>)\<rparr>)
      else w)"

definition app_steps :: "app_action list \<Rightarrow> worker_t \<Rightarrow> worker_t" where
  "app_steps acts w = foldl app_step w acts"

text \<open>
  \<^verbatim>\<open>m_streams.emplace(session_id, io)\<close>: on a map with one pair for a key, \<^verbatim>\<open>emplace\<close> on a key
  that is there inserts nothing and keeps the pair. A pair that is inserted is one more
  pointer to its adapter.
\<close>

definition emplace :: "unique_id_t \<Rightarrow> io_pair_t \<Rightarrow> worker_t \<Rightarrow> worker_t" where
  "emplace sid io w =
     (case m_streams w sid of
        None \<Rightarrow>
          w\<lparr>m_streams := (m_streams w)(sid \<mapsto> io),
            objects := (objects w)(upstream io :=
              (objects w (upstream io))\<lparr>worker_refs := Suc (worker_refs (objects w (upstream io)))\<rparr>)\<rparr>
      | Some old \<Rightarrow> w)"

text \<open>\<^verbatim>\<open>m_streams.erase(it)\<close>, where \<open>it\<close> points to the pair \<open>io\<close> under \<open>sid\<close>.\<close>

definition erase :: "unique_id_t \<Rightarrow> io_pair_t \<Rightarrow> worker_t \<Rightarrow> worker_t" where
  "erase sid io w = unref (upstream io) (w\<lparr>m_streams := (m_streams w)(sid := None)\<rparr>)"

text \<open>\<^verbatim>\<open>worker_t::terminate\<close>.\<close>

definition terminate :: "reasons \<Rightarrow> string \<Rightarrow> worker_t \<Rightarrow> worker_t" where
  "terminate reason message w = (send [suicide reason message] w)\<lparr>loop_running := False\<rparr>"

text \<open>
  \<^verbatim>\<open>worker_t::on_heartbeat\<close> and \<^verbatim>\<open>worker_t::on_disown\<close>, the two timer callbacks. The
  heartbeat is sent with a send timeout of zero: the channel takes it at once or not at
  all, which is the argument \<open>accepted\<close>.
\<close>

definition on_heartbeat :: "bool \<Rightarrow> worker_t \<Rightarrow> worker_t" where
  "on_heartbeat accepted w = (if accepted then send [heartbeat] w else w)"

definition on_disown :: "worker_t \<Rightarrow> worker_t" where
  "on_disown w =
     (log error_priority ''worker %s has lost the controlling engine'' w)\<lparr>loop_running := False\<rparr>"

text \<open>
  A call the worker makes into the application: it is noted in the trace, and the
  application does what it does before it returns or throws.
\<close>

definition call_app :: "sandbox_call \<Rightarrow> app_run \<Rightarrow> worker_t \<Rightarrow> worker_t" where
  "call_app c r w = app_steps (calls r) (entered c w)"

text \<open>
  The first statements of the \<^verbatim>\<open>invoke\<close> case, up to the point where
  \<^verbatim>\<open>m_sandbox->invoke(event, upstream)\<close> has returned or thrown: the adapter is made, with
  the local pointer \<^verbatim>\<open>upstream\<close> to it, and passed to the sandbox, which keeps its copy of
  the pointer or not.
\<close>

definition sandbox_invoked :: "unique_id_t \<Rightarrow> string \<Rightarrow> app_run \<Rightarrow> worker_t \<Rightarrow> worker_t" where
  "sandbox_invoked sid event r w =
     (let a = next_object w;
          w1 = w\<lparr>objects := (objects w)(a :=
                  \<lparr>obj = new_upstream sid, worker_refs = 1, app_ref = True\<rparr>),
                next_object := Suc a\<rparr>;
          w2 = call_app (sandbox_invoke event a) r w1
      in w2\<lparr>objects := (objects w2)(a := (objects w2 a)\<lparr>app_ref := retains r\<rparr>)\<rparr>)"

text \<open>
  The \<^verbatim>\<open>switch\<close> of \<^verbatim>\<open>worker_t::process\<close> on one received message, with what the application
  does when it is called. \<open>Inl\<close> is an exception that leaves \<^verbatim>\<open>process\<close>: nothing above it
  catches (\<^verbatim>\<open>on_event\<close>, \<^verbatim>\<open>run\<close> and \<^verbatim>\<open>main\<close> have no handler around it), so the process
  ends there.

  In the \<^verbatim>\<open>catch\<close> handlers \<^verbatim>\<open>error()\<close> is called with no \<^verbatim>\<open>try\<close> around it; when it throws,
  the \<^verbatim>\<open>erase\<close> after it is not reached. At the end of the \<^verbatim>\<open>invoke\<close> case the local pointer
  \<^verbatim>\<open>upstream\<close> goes out of scope.
\<close>

fun dispatch :: "worker_t \<Rightarrow> message \<Rightarrow> app_run \<Rightarrow> error_t + worker_t" where
  "dispatch w recv_heartbeat r =
     Inr (w\<lparr>m_disown_timer :=
       timer_start (loop_now w) (heartbeat_timeout (m_profile w)) (timer_stop (m_disown_timer w))\<rparr>)"
| "dispatch w (recv_invoke sid event) r =
     (let a = next_object w;
          w1 = sandbox_invoked sid event r w
      in case thrown r of
           None \<Rightarrow> Inr (unref a (emplace sid \<lparr>upstream = a, downstream = returned r\<rparr> w1))
         | Some e \<Rightarrow>
             (case call_upstream a (call_error invocation_error (what e)) w1 of
                Inl x \<Rightarrow> Inl x
              | Inr w2 \<Rightarrow> Inr (unref a w2)))"
| "dispatch w (recv_chunk sid data) r =
     (case m_streams w sid of
        None \<Rightarrow> Inr w
      | Some io \<Rightarrow>
          (let w1 = call_app (downstream_push (downstream io) data) r w
           in case thrown r of
                None \<Rightarrow> Inr w1
              | Some e \<Rightarrow>
                  (case call_upstream (upstream io) (call_error invocation_error (what e)) w1 of
                     Inl x \<Rightarrow> Inl x
                   | Inr w2 \<Rightarrow> Inr (erase sid io w2))))"
| "dispatch w (recv_choke sid) r =
     (case m_streams w sid of
        None \<Rightarrow> Inr w
      | Some io \<Rightarrow>
          (let w1 = call_app (downstream_close (downstream io)) r w
           in case thrown r of
                None \<Rightarrow> Inr (erase sid io w1)
              | Some e \<Rightarrow>
                  (case call_upstream (upstream io) (call_error invocation_error (what e)) w1 of
                     Inl x \<Rightarrow> Inl x
                   | Inr w2 \<Rightarrow> Inr (erase sid io w2))))"
| "dispatch w recv_terminate r = Inr (terminate normal ''per request'' w)"
| "dispatch w (recv_unknown tag) r =
     Inr (log warning_priority ''worker %s dropping unknown type %d message'' w)"

text \<open>
  The body of the loop once a message is there: the debug line, then the \<^verbatim>\<open>switch\<close>. A
  message is whole in this model, so the assertion at the head of the body, that no part
  of the previous message is left in the channel, always holds.
\<close>

definition receive :: "worker_t \<Rightarrow> message \<Rightarrow> app_run \<Rightarrow> error_t + worker_t" where
  "receive w m r = dispatch (log debug_priority ''worker %s received type %d message'' w) m r"

text \<open>
  The drain loop of \<^verbatim>\<open>worker_t::process\<close>: \<^verbatim>\<open>do { ... } while(--counter)\<close>, and the feeding of
  the event loop after it. The queue is what the channel holds, each message with what
  the application will do when called for it. An empty queue is a \<^verbatim>\<open>recv\<close> that yields
  nothing: \<^verbatim>\<open>return\<close>. The result is the worker and the messages still queued.

  \<^verbatim>\<open>defaults::io_bulk_size\<close> is a constant of the cocaine headers, which are not part of the
  sources; it is the first argument of \<open>process\<close>. The counter it initialises is a C \<^verbatim>\<open>int\<close>
  of 32 bits: \<^verbatim>\<open>int counter = defaults::io_bulk_size\<close>. \<open>c_int\<close> is the value an integer has as
  such an \<^verbatim>\<open>int\<close>, reduced modulo \<open>2^32\<close> into the range from \<open>INT_MIN\<close> to \<open>INT_MAX\<close>; the
  decrement of a counter that stands at \<open>INT_MIN\<close>, which C leaves undefined, wraps in the
  same way.
\<close>

definition INT_MAX :: int where
  "INT_MAX = 2147483647"

definition c_int :: "int \<Rightarrow> int" where
  "c_int x = (x + 2147483648) mod 4294967296 - 2147483648"

fun process_loop ::
  "int \<Rightarrow> (message \<times> app_run) list \<Rightarrow> worker_t \<Rightarrow> error_t + worker_t \<times> (message \<times> app_run) list"
where
  "process_loop counter [] w = Inr (w, [])"
| "process_loop counter ((m, r) # queue) w =
     (case receive w m r of
        Inl x \<Rightarrow> Inl x
      | Inr w' \<Rightarrow>
          (if c_int (counter - 1) \<noteq> 0
           then process_loop (c_int (counter - 1)) queue w'
           else Inr (w'\<lparr>read_event_fed := True\<rparr>, queue)))"

definition process ::
  "int \<Rightarrow> (message \<times> app_run) list \<Rightarrow> worker_t \<Rightarrow> error_t + worker_t \<times> (message \<times> app_run) list"
where
  "process io_bulk_size queue w = process_loop (c_int io_bulk_size) queue w"

text \<open>
  The worker as the constructor leaves it when nothing fails: no streams, nothing sent,
  the disown timer started with the profile's timeout.
\<close>

definition started :: "string \<Rightarrow> profile_t \<Rightarrow> real \<Rightarrow> worker_t" where
  "started uuid profile now =
     \<lparr>worker_id = uuid, m_profile = profile, m_streams = Map.empty,
      objects = (\<lambda>a. \<lparr>obj = \<lparr>m_id = [], m_state = state_closed\<rparr>, worker_refs = 0, app_ref = False\<rparr>),
      next_object = 0, sent = [], logged = [], into_app = [],
      m_disown_timer = timer_start now (heartbeat_timeout profile) \<lparr>active = False, fires_at = 0\<rparr>,
      loop_now = now, loop_running = True, read_event_fed = False\<rparr>"

text \<open>
  What happens to a running worker: a message is received and dispatched, the
  application acts on its own between two messages, the event loop's clock moves, or a
  timer fires.
\<close>

datatype event =
    received message app_run
  | application "app_action list"
  | clock real
  | heartbeat_due bool
  | disown_due

fun step :: "worker_t \<Rightarrow> event \<Rightarrow> error_t + worker_t" where
  "step w (received m r) = receive w m r"
| "step w (application acts) = Inr (app_steps acts w)"
| "step w (clock t) = Inr (w\<lparr>loop_now := t\<rparr>)"
| "step w (heartbeat_due accepted) = Inr (on_heartbeat accepted w)"
| "step w disown_due = Inr (on_disown w)"

fun run :: "worker_t \<Rightarrow> event list \<Rightarrow> error_t + worker_t" where
  "run w [] = Inr w"
| "run w (e # es) = (case step w e of Inl x \<Rightarrow> Inl x | Inr w' \<Rightarrow> run w' es)"

text \<open>
  The loop body of \<^verbatim>\<open>process\<close> applied to each message of a list in turn, stopping at an
  exception: what it means that these messages were dispatched, in this order.
\<close>

fun dispatch_each :: "worker_t \<Rightarrow> (message \<times> app_run) list \<Rightarrow> error_t + worker_t" where
  "dispatch_each w [] = Inr w"
| "dispatch_each w ((m, r) # queue) =
     (case receive w m r of
        Inl x \<Rightarrow> Inl x
      | Inr w' \<Rightarrow> dispatch_each w' queue)"

section \<open>Example inputs\<close>

text \<open>
  A worker just started, and three ways an application can behave in a call: it returns
  a handle and keeps the pointer it was given; it throws; it first closes the adapter
  with the given number.
\<close>

definition example_worker :: worker_t where
  "example_worker = started ''worker-1'' \<lparr>heartbeat_timeout = 30\<rparr> 0"

definition returning :: "nat \<Rightarrow> app_run" where
  "returning h = \<lparr>calls = [], thrown = None, returned = h, retains = True\<rparr>"

definition throwing :: "string \<Rightarrow> app_run" where
  "throwing message =
     \<lparr>calls = [], thrown = Some (std_exception message), returned = 0, retains = True\<rparr>"

definition closing_first :: "nat \<Rightarrow> app_run \<Rightarrow> app_run" where
  "closing_first a r = r\<lparr>calls := app_call a call_close # calls r\<rparr>"

text \<open>The example worker after a first invoke, for session S1, from which the sandbox returned.\<close>

definition serving :: "app_run \<Rightarrow> worker_t" where
  "serving r =
     (case receive example_worker (recv_invoke ''S1'' ''ping'') r of
        Inl x \<Rightarrow> example_worker
      | Inr w \<Rightarrow> w)"

section \<open>Invariants and the history of a session\<close>

text \<open>
  Calls on adapters, their destructors and the counting of pointers change the adapters
  and append to what is sent; they change nothing else, and no adapter's session
  identifier. \<open>adapters_only w w'\<close> says that \<open>w'\<close> differs from \<open>w\<close> at most so.
\<close>

definition adapters_only :: "worker_t \<Rightarrow> worker_t \<Rightarrow> bool" where
  "adapters_only w w' =
     (\<exists>os out. w' = w\<lparr>objects := os, sent := sent w @ out\<rparr> \<and>
        (\<forall>b. m_id (obj (os b)) = m_id (obj (objects w b))))"

text \<open>
  Every pair in the table names an adapter that was created, and that adapter carries
  the session identifier it is stored under.
\<close>

definition table_ok :: "worker_t \<Rightarrow> bool" where
  "table_ok w =
     (\<forall>sid io. m_streams w sid = Some io \<longrightarrow>
        upstream io < next_object w \<and> m_id (obj (objects w (upstream io))) = sid)"

text \<open>
  The history side of the table's invariant, in the words of the specification: a
  session is open after the events \<open>es\<close> when an \<^verbatim>\<open>invoke\<close> for it succeeded and no
  terminal event for it was processed since. A successful invoke is one from which the
  sandbox returned; a terminal event is a choke, or a chunk during which the downstream
  threw.
\<close>

fun begins :: "unique_id_t \<Rightarrow> event \<Rightarrow> bool" where
  "begins sid (received (recv_invoke sid' event) r) = (sid' = sid \<and> thrown r = None)"
| "begins sid e = False"

fun ends :: "unique_id_t \<Rightarrow> event \<Rightarrow> bool" where
  "ends sid (received (recv_choke sid') r) = (sid' = sid)"
| "ends sid (received (recv_chunk sid' data) r) = (sid' = sid \<and> thrown r \<noteq> None)"
| "ends sid e = False"

definition track :: "unique_id_t \<Rightarrow> bool \<Rightarrow> event \<Rightarrow> bool" where
  "track sid b e = (if begins sid e then True else if ends sid e then False else b)"

definition session_open :: "unique_id_t \<Rightarrow> event list \<Rightarrow> bool" where
  "session_open sid es = foldl (track sid) False es"


section \<open>Evaluation\<close>

text \<open>The defining equations that evaluate a step of the worker on given inputs.\<close>

lemmas evaluation =
  example_worker_def returning_def throwing_def closing_first_def
  started_def sandbox_invoked_def call_app_def app_steps_def entered_def
  call_upstream_def send_def reap_def unref_def emplace_def erase_def destroy_def push_def
  close_def error_upstream_def new_upstream_def timer_start_def timer_stop_def log_def
  terminate_def on_disown_def on_heartbeat_def receive_def Let_def

section \<open>Properties of the adapter\<close>

lemma perform_closed:
  "m_state u = state_closed \<Longrightarrow> perform u c = Inl (error_t ''the stream has been closed'')"
  by (cases c) (simp_all add: push_def error_upstream_def close_def)

lemma perform_all_closed: "m_state u = state_closed \<Longrightarrow> perform_all u cs = (u, [])"
  by (induction cs) (simp_all add: perform_closed)

lemma perform_state:
  "perform u c = Inr (u', out) \<Longrightarrow>
     m_state u = state_open \<and> m_state u' = (if is_terminal_call c then state_closed else state_open)"
  by (cases c) (auto simp: push_def error_upstream_def close_def split: state_t.splits)

lemma perform_all_terminal:
  "\<exists>c \<in> set cs. is_terminal_call c \<Longrightarrow> m_state u = state_open \<Longrightarrow>
     m_state (fst (perform_all u cs)) = state_closed"
proof (induction cs arbitrary: u)
  case Nil
  then show ?case by simp
next
  case (Cons c cs)
  from Cons.prems(2) obtain u' out where p: "perform u c = Inr (u', out)"
    by (cases c) (auto simp: push_def error_upstream_def close_def)
  show ?case
  proof (cases "is_terminal_call c")
    case True
    with p have "m_state u' = state_closed" using perform_state by fastforce
    then show ?thesis using p by (simp add: perform_all_closed)
  next
    case False
    with p have o: "m_state u' = state_open" using perform_state by fastforce
    from False Cons.prems(1) have "\<exists>c \<in> set cs. is_terminal_call c" by auto
    from Cons.IH [OF this o] show ?thesis using p by (auto split: prod.splits)
  qed
qed

lemma destroy_open:
  "m_state u = state_open \<Longrightarrow> destroy u = (u\<lparr>m_state := state_closed\<rparr>, [choke (m_id u)])"
  by (simp add: destroy_def close_def)

lemma destroy_closed: "m_state u = state_closed \<Longrightarrow> destroy u = (u, [])"
  by (simp add: destroy_def)

text \<open>
  C2. An adapter starts open. While it is open, \<open>push\<close> emits one chunk message and
  leaves it open, \<open>error\<close> emits an error message followed by a choke message and closes
  it, and \<open>close\<close> emits a choke message and closes it. Once the calls made on it so far
  include an \<open>error\<close> or a \<open>close\<close>, every later call throws "the stream has been closed",
  and whatever later calls are made emit nothing and leave the adapter as it is.
\<close>

theorem upstream_state_machine:
  "(m_state u = state_open \<longrightarrow>
      push u data = Inr (u, [chunk (m_id u) data]) \<and>
      error_upstream u code message =
        Inr (u\<lparr>m_state := state_closed\<rparr>, [error (m_id u) code message, choke (m_id u)]) \<and>
      close u = Inr (u\<lparr>m_state := state_closed\<rparr>, [choke (m_id u)])) \<and>
   ((\<exists>c \<in> set cs. is_terminal_call c) \<longrightarrow>
      (let v = fst (perform_all (new_upstream sid) cs) in
         perform v c' = Inl (error_t ''the stream has been closed'') \<and>
         perform_all v cs' = (v, [])))"
proof -
  have "m_state (new_upstream sid) = state_open" by (simp add: new_upstream_def)
  then have "(\<exists>c \<in> set cs. is_terminal_call c) \<Longrightarrow>
      m_state (fst (perform_all (new_upstream sid) cs)) = state_closed"
    by (rule perform_all_terminal [rotated])
  then show ?thesis
    by (auto simp: push_def error_upstream_def close_def Let_def
        perform_closed perform_all_closed)
qed

theorem upstream_state_machine_witness:
  "push (new_upstream ''S1'') ''hello'' = Inr (new_upstream ''S1'', [chunk ''S1'' ''hello'']) \<and>
   close (new_upstream ''S1'') =
     Inr (\<lparr>m_id = ''S1'', m_state = state_closed\<rparr>, [choke ''S1'']) \<and>
   fst (perform_all (new_upstream ''S1'') [call_push ''a'', call_close]) =
     \<lparr>m_id = ''S1'', m_state = state_closed\<rparr> \<and>
   perform \<lparr>m_id = ''S1'', m_state = state_closed\<rparr> (call_push ''b'') =
     Inl (error_t ''the stream has been closed'') \<and>
   perform_all \<lparr>m_id = ''S1'', m_state = state_closed\<rparr> [call_push ''b'', call_close] =
     (\<lparr>m_id = ''S1'', m_state = state_closed\<rparr>, [])"
  using upstream_state_machine
    [of "new_upstream ''S1''" "''hello''" invocation_error "''x''"
        "[call_push ''a'', call_close]" "''S1''" "call_push ''b''" "[call_push ''b'', call_close]"]
  by (simp add: new_upstream_def push_def close_def)


section \<open>What the adapters' calls leave alone\<close>

lemma adapters_only_refl: "adapters_only w w"
  unfolding adapters_only_def
  by (rule exI [of _ "objects w"], rule exI [of _ "[]"]) simp

lemma adapters_only_trans:
  assumes "adapters_only w w'" and "adapters_only w' w''"
  shows "adapters_only w w''"
proof -
  from assms(1) obtain os out where 1: "w' = w\<lparr>objects := os, sent := sent w @ out\<rparr>"
    and 2: "\<forall>b. m_id (obj (os b)) = m_id (obj (objects w b))"
    unfolding adapters_only_def by blast
  from assms(2) obtain os' out' where 3: "w'' = w'\<lparr>objects := os', sent := sent w' @ out'\<rparr>"
    and 4: "\<forall>b. m_id (obj (os' b)) = m_id (obj (objects w' b))"
    unfolding adapters_only_def by blast
  have "w'' = w\<lparr>objects := os', sent := sent w @ (out @ out')\<rparr>"
    using 1 3 by simp
  moreover have "\<forall>b. m_id (obj (os' b)) = m_id (obj (objects w b))"
    using 1 2 4 by simp
  ultimately show ?thesis
    unfolding adapters_only_def by blast
qed

lemma adapters_only_fields:
  assumes "adapters_only w w'"
  shows "m_streams w' = m_streams w" and "next_object w' = next_object w"
    and "logged w' = logged w" and "into_app w' = into_app w"
    and "m_disown_timer w' = m_disown_timer w" and "loop_now w' = loop_now w"
    and "loop_running w' = loop_running w" and "read_event_fed w' = read_event_fed w"
    and "worker_id w' = worker_id w" and "m_profile w' = m_profile w"
    and "m_id (obj (objects w' b)) = m_id (obj (objects w b))"
  using assms unfolding adapters_only_def by auto

lemma perform_id: "perform u c = Inr (u', out) \<Longrightarrow> m_id u' = m_id u"
  by (cases c) (auto simp: push_def error_upstream_def close_def split: state_t.splits)

lemma destroy_id: "m_id (fst (destroy u)) = m_id u"
  by (cases "m_state u") (simp_all add: destroy_open destroy_closed)

lemma call_upstream_only:
  assumes "call_upstream a c w = Inr w'"
  shows "adapters_only w w'"
proof -
  from assms obtain u out where p: "perform (obj (objects w a)) c = Inr (u, out)"
    and w': "w' = w\<lparr>objects := (objects w)(a := (objects w a)\<lparr>obj := u\<rparr>), sent := sent w @ out\<rparr>"
    by (auto simp: call_upstream_def send_def split: sum.splits)
  from p have "m_id u = m_id (obj (objects w a))" by (rule perform_id)
  then have "\<forall>b. m_id (obj (((objects w)(a := (objects w a)\<lparr>obj := u\<rparr>)) b)) = m_id (obj (objects w b))"
    by simp
  with w' show ?thesis unfolding adapters_only_def by blast
qed

lemma reap_only: "adapters_only w (reap a w)"
proof (cases "worker_refs (objects w a) = 0 \<and> \<not> app_ref (objects w a)")
  case False
  then have "reap a w = w" by (auto simp: reap_def send_def)
  then show ?thesis by (simp add: adapters_only_refl)
next
  case True
  obtain u out where d: "destroy (obj (objects w a)) = (u, out)" by (cases "destroy (obj (objects w a))")
  then have "m_id u = m_id (obj (objects w a))" using destroy_id [of "obj (objects w a)"] by simp
  then have "\<forall>b. m_id (obj (((objects w)(a := (objects w a)\<lparr>obj := u\<rparr>)) b)) = m_id (obj (objects w b))"
    by simp
  moreover have "reap a w = w\<lparr>objects := (objects w)(a := (objects w a)\<lparr>obj := u\<rparr>), sent := sent w @ out\<rparr>"
    using True d by (simp add: reap_def send_def)
  ultimately show ?thesis unfolding adapters_only_def by blast
qed

lemma counting_only:
  assumes "m_id (obj c) = m_id (obj (objects w a))"
  shows "adapters_only w (w\<lparr>objects := (objects w)(a := c)\<rparr>)"
proof -
  have "w\<lparr>objects := (objects w)(a := c)\<rparr> = w\<lparr>objects := (objects w)(a := c), sent := sent w @ []\<rparr>"
    by simp
  moreover have "\<forall>b. m_id (obj (((objects w)(a := c)) b)) = m_id (obj (objects w b))"
    using assms by simp
  ultimately show ?thesis unfolding adapters_only_def by blast
qed

lemma unref_only: "adapters_only w (unref a w)"
  unfolding unref_def
  by (rule adapters_only_trans [OF counting_only reap_only]) simp

lemma app_step_only: "adapters_only w (app_step w act)"
proof (cases act)
  case (app_call a c)
  then show ?thesis
    by (auto simp: adapters_only_refl call_upstream_only split: sum.splits)
next
  case (app_release a)
  have "adapters_only w
     (reap a (w\<lparr>objects := (objects w)(a := (objects w a)\<lparr>app_ref := False\<rparr>)\<rparr>))"
    by (rule adapters_only_trans [OF counting_only reap_only]) simp
  with app_release show ?thesis by (simp add: adapters_only_refl)
qed

lemma app_steps_only: "adapters_only w (app_steps acts w)"
  unfolding app_steps_def
proof (induction acts arbitrary: w)
  case Nil
  show ?case by (simp add: adapters_only_refl)
next
  case (Cons act acts)
  show ?case
    using adapters_only_trans [OF app_step_only Cons.IH] by simp
qed

lemma call_app_streams [simp]: "m_streams (call_app c r w) = m_streams w"
  using adapters_only_fields(1) [OF app_steps_only] by (simp add: call_app_def entered_def)

lemma call_app_next [simp]: "next_object (call_app c r w) = next_object w"
  using adapters_only_fields(2) [OF app_steps_only] by (simp add: call_app_def entered_def)

lemma call_app_id [simp]: "m_id (obj (objects (call_app c r w) b)) = m_id (obj (objects w b))"
  using adapters_only_fields(11) [OF app_steps_only] by (simp add: call_app_def entered_def)

lemma unref_streams [simp]: "m_streams (unref a w) = m_streams w"
  by (rule adapters_only_fields(1) [OF unref_only])

lemma unref_next [simp]: "next_object (unref a w) = next_object w"
  by (rule adapters_only_fields(2) [OF unref_only])

lemma unref_id [simp]: "m_id (obj (objects (unref a w) b)) = m_id (obj (objects w b))"
  by (rule adapters_only_fields(11) [OF unref_only])

lemma sandbox_invoked_streams [simp]: "m_streams (sandbox_invoked sid event r w) = m_streams w"
  by (simp add: sandbox_invoked_def Let_def)

lemma sandbox_invoked_next [simp]:
  "next_object (sandbox_invoked sid event r w) = Suc (next_object w)"
  by (simp add: sandbox_invoked_def Let_def)

lemma sandbox_invoked_id [simp]:
  "m_id (obj (objects (sandbox_invoked sid event r w) b)) =
     (if b = next_object w then sid else m_id (obj (objects w b)))"
  by (simp add: sandbox_invoked_def Let_def new_upstream_def)

lemma erase_streams [simp]: "m_streams (erase sid io w) = (m_streams w)(sid := None)"
  by (simp add: erase_def)

lemma erase_next [simp]: "next_object (erase sid io w) = next_object w"
  by (simp add: erase_def)

lemma erase_id [simp]: "m_id (obj (objects (erase sid io w) b)) = m_id (obj (objects w b))"
  by (simp add: erase_def)

lemma emplace_streams:
  "m_streams (emplace sid io w) =
     (case m_streams w sid of None \<Rightarrow> (m_streams w)(sid \<mapsto> io) | Some old \<Rightarrow> m_streams w)"
  by (simp add: emplace_def split: option.splits)

lemma emplace_next [simp]: "next_object (emplace sid io w) = next_object w"
  by (simp add: emplace_def split: option.splits)

lemma emplace_id [simp]: "m_id (obj (objects (emplace sid io w) b)) = m_id (obj (objects w b))"
  by (simp add: emplace_def split: option.splits)


section \<open>What the calls do to one adapter\<close>

lemma call_error_open:
  assumes "m_state (obj (objects w a)) = state_open"
  shows "call_upstream a (call_error code message) w =
     Inr (w\<lparr>objects := (objects w)(a := (objects w a)\<lparr>obj := (obj (objects w a))\<lparr>m_state := state_closed\<rparr>\<rparr>),
            sent := sent w @ [error (m_id (obj (objects w a))) code message,
                              choke (m_id (obj (objects w a)))]\<rparr>)"
  using assms by (simp add: call_upstream_def send_def error_upstream_def)

lemma call_error_closed:
  assumes "m_state (obj (objects w a)) = state_closed"
  shows "call_upstream a (call_error code message) w = Inl (error_t ''the stream has been closed'')"
  using assms by (simp add: call_upstream_def send_def error_upstream_def)

lemma reap_sent:
  "sent (reap a w) = sent w @
     (if worker_refs (objects w a) = 0 \<and> \<not> app_ref (objects w a) \<and>
         m_state (obj (objects w a)) = state_open
      then [choke (m_id (obj (objects w a)))] else [])"
  by (cases "m_state (obj (objects w a))") (simp_all add: reap_def send_def destroy_open destroy_closed)

lemma reap_state:
  "m_state (obj (objects (reap a w) b)) =
     (if b = a \<and> worker_refs (objects w a) = 0 \<and> \<not> app_ref (objects w a)
      then state_closed else m_state (obj (objects w b)))"
  by (cases "m_state (obj (objects w a))") (simp_all add: reap_def send_def destroy_open destroy_closed)

lemma reap_refs [simp]: "worker_refs (objects (reap a w) b) = worker_refs (objects w b)"
  by (simp add: reap_def send_def split: prod.splits)

lemma reap_app_ref [simp]: "app_ref (objects (reap a w) b) = app_ref (objects w b)"
  by (simp add: reap_def send_def split: prod.splits)

lemma unref_sent:
  "sent (unref a w) = sent w @
     (if worker_refs (objects w a) \<le> 1 \<and> \<not> app_ref (objects w a) \<and>
         m_state (obj (objects w a)) = state_open
      then [choke (m_id (obj (objects w a)))] else [])"
  by (auto simp: unref_def reap_sent)

lemma unref_refs:
  "worker_refs (objects (unref a w) b) =
     (if b = a then worker_refs (objects w a) - 1 else worker_refs (objects w b))"
  by (simp add: unref_def)

lemma unref_state:
  "m_state (obj (objects (unref a w) b)) =
     (if b = a \<and> worker_refs (objects w a) \<le> 1 \<and> \<not> app_ref (objects w a)
      then state_closed else m_state (obj (objects w b)))"
  by (auto simp: unref_def reap_state)

lemma call_upstream_refs:
  "call_upstream a c w = Inr w' \<Longrightarrow> worker_refs (objects w' b) = worker_refs (objects w b)"
  by (auto simp: call_upstream_def send_def split: sum.splits)

lemma app_step_refs [simp]: "worker_refs (objects (app_step w act) b) = worker_refs (objects w b)"
  by (cases act) (auto simp: call_upstream_refs split: sum.splits)

lemma app_steps_refs [simp]:
  "worker_refs (objects (app_steps acts w) b) = worker_refs (objects w b)"
  unfolding app_steps_def by (induction acts arbitrary: w) simp_all

lemma call_app_refs [simp]:
  "worker_refs (objects (call_app c r w) b) = worker_refs (objects w b)"
  by (simp add: call_app_def entered_def)

lemma call_app_into_app [simp]: "into_app (call_app c r w) = into_app w @ [c]"
  using adapters_only_fields(4) [OF app_steps_only] by (simp add: call_app_def entered_def)

lemma sandbox_invoked_refs [simp]:
  "worker_refs (objects (sandbox_invoked sid event r w) b) =
     (if b = next_object w then 1 else worker_refs (objects w b))"
  by (simp add: sandbox_invoked_def Let_def)

lemma sandbox_invoked_app_ref [simp]:
  "app_ref (objects (sandbox_invoked sid event r w) (next_object w)) = retains r"
  by (simp add: sandbox_invoked_def Let_def)

lemma sandbox_invoked_into_app [simp]:
  "into_app (sandbox_invoked sid event r w) = into_app w @ [sandbox_invoke event (next_object w)]"
  by (simp add: sandbox_invoked_def Let_def)

lemma invoke_fault_sent:
  assumes "thrown r = Some e"
    and "m_state (obj (objects (sandbox_invoked sid event r w) (next_object w))) = state_open"
  shows "\<exists>w'. dispatch w (recv_invoke sid event) r = Inr w' \<and>
           sent w' = sent (sandbox_invoked sid event r w) @
                       [error sid invocation_error (what e), choke sid] \<and>
           m_state (obj (objects w' (next_object w))) = state_closed \<and>
           m_streams w' = m_streams w"
proof -
  let ?a = "next_object w"
  let ?w1 = "sandbox_invoked sid event r w"
  let ?w2 = "?w1\<lparr>objects := (objects ?w1)(?a := (objects ?w1 ?a)\<lparr>obj := (obj (objects ?w1 ?a))\<lparr>m_state := state_closed\<rparr>\<rparr>),
            sent := sent ?w1 @ [error (m_id (obj (objects ?w1 ?a))) invocation_error (what e),
                              choke (m_id (obj (objects ?w1 ?a)))]\<rparr>"
  have c: "call_upstream ?a (call_error invocation_error (what e)) ?w1 = Inr ?w2"
    using assms(2) by (rule call_error_open)
  have d: "dispatch w (recv_invoke sid event) r = Inr (unref ?a ?w2)"
    using assms(1) c by (simp add: Let_def)
  have "sent (unref ?a ?w2) = sent ?w1 @ [error sid invocation_error (what e), choke sid]"
    by (simp add: unref_sent)
  moreover have "m_state (obj (objects (unref ?a ?w2) ?a)) = state_closed"
    by (simp add: unref_state)
  moreover have "m_streams (unref ?a ?w2) = m_streams w" by simp
  ultimately show ?thesis using d by blast
qed

section \<open>The table names adapters the worker made\<close>

lemma table_ok_started: "table_ok (started uuid profile now)"
  by (simp add: table_ok_def started_def)

lemma table_ok_only: "adapters_only w w' \<Longrightarrow> table_ok w \<Longrightarrow> table_ok w'"
  by (simp add: table_ok_def adapters_only_fields)

lemma table_ok_dispatch:
  assumes "table_ok w" and "dispatch w m r = Inr w'"
  shows "table_ok w'"
proof (cases m)
  case recv_heartbeat
  with assms show ?thesis by (auto simp: table_ok_def)
next
  case (recv_invoke sid event)
  let ?a = "next_object w"
  let ?w1 = "sandbox_invoked sid event r w"
  have ok1: "\<forall>k io. m_streams ?w1 k = Some io \<longrightarrow>
      upstream io < ?a \<and> m_id (obj (objects ?w1 (upstream io))) = k"
  proof (intro allI impI)
    fix k io
    assume "m_streams ?w1 k = Some io"
    then have "m_streams w k = Some io" by simp
    with assms(1) have "upstream io < ?a" and "m_id (obj (objects w (upstream io))) = k"
      by (auto simp: table_ok_def)
    then show "upstream io < ?a \<and> m_id (obj (objects ?w1 (upstream io))) = k" by simp
  qed
  show ?thesis
  proof (cases "thrown r")
    case None
    with recv_invoke assms(2)
    have w': "w' = unref ?a (emplace sid \<lparr>upstream = ?a, downstream = returned r\<rparr> ?w1)"
      by (simp add: Let_def)
    show ?thesis
      unfolding table_ok_def w'
      using ok1 by (auto simp: emplace_streams less_Suc_eq split: option.splits if_splits)
  next
    case (Some e)
    with recv_invoke assms(2) obtain w2
      where c: "call_upstream ?a (call_error invocation_error (what e)) ?w1 = Inr w2"
        and w': "w' = unref ?a w2"
      by (auto simp: Let_def split: sum.splits)
    have "table_ok ?w1"
      unfolding table_ok_def using ok1 by (auto simp: less_Suc_eq)
    then have "table_ok w2" using call_upstream_only [OF c] table_ok_only by blast
    then show ?thesis unfolding w' using unref_only table_ok_only by blast
  qed
next
  case (recv_chunk sid data)
  show ?thesis
  proof (cases "m_streams w sid")
    case None
    with recv_chunk assms show ?thesis by simp
  next
    case (Some io)
    let ?w1 = "call_app (downstream_push (downstream io) data) r w"
    have ok1: "table_ok ?w1" using assms(1) by (simp add: table_ok_def)
    show ?thesis
    proof (cases "thrown r")
      case None
      with recv_chunk Some assms(2) ok1 show ?thesis by (simp add: Let_def)
    next
      case (Some e)
      with recv_chunk \<open>m_streams w sid = Some io\<close> assms(2) obtain w2
        where c: "call_upstream (upstream io) (call_error invocation_error (what e)) ?w1 = Inr w2"
          and w': "w' = erase sid io w2"
        by (auto simp: Let_def split: sum.splits)
      have "table_ok w2" using call_upstream_only [OF c] table_ok_only ok1 by blast
      then show ?thesis unfolding w' by (auto simp: table_ok_def)
    qed
  qed
next
  case (recv_choke sid)
  show ?thesis
  proof (cases "m_streams w sid")
    case None
    with recv_choke assms show ?thesis by simp
  next
    case (Some io)
    let ?w1 = "call_app (downstream_close (downstream io)) r w"
    have ok1: "table_ok ?w1" using assms(1) by (simp add: table_ok_def)
    show ?thesis
    proof (cases "thrown r")
      case None
      with recv_choke Some assms(2) have "w' = erase sid io ?w1" by (simp add: Let_def)
      with ok1 show ?thesis by (auto simp: table_ok_def)
    next
      case (Some e)
      with recv_choke \<open>m_streams w sid = Some io\<close> assms(2) obtain w2
        where c: "call_upstream (upstream io) (call_error invocation_error (what e)) ?w1 = Inr w2"
          and w': "w' = erase sid io w2"
        by (auto simp: Let_def split: sum.splits)
      have "table_ok w2" using call_upstream_only [OF c] table_ok_only ok1 by blast
      then show ?thesis unfolding w' by (auto simp: table_ok_def)
    qed
  qed
next
  case recv_terminate
  with assms show ?thesis by (auto simp: table_ok_def terminate_def send_def)
next
  case (recv_unknown tag)
  with assms show ?thesis by (auto simp: table_ok_def log_def)
qed

lemma table_ok_step:
  assumes "table_ok w" and "step w e = Inr w'"
  shows "table_ok w'"
proof (cases e)
  case (received m r)
  with assms have "dispatch (log debug_priority ''worker %s received type %d message'' w) m r = Inr w'"
    by (simp add: receive_def)
  moreover from assms(1) have "table_ok (log debug_priority ''worker %s received type %d message'' w)"
    by (simp add: table_ok_def log_def)
  ultimately show ?thesis by (rule table_ok_dispatch [rotated])
next
  case (application acts)
  with assms show ?thesis using table_ok_only [OF app_steps_only] by auto
next
  case (clock t)
  with assms show ?thesis by (auto simp: table_ok_def)
next
  case (heartbeat_due accepted)
  with assms show ?thesis by (cases accepted) (auto simp: table_ok_def on_heartbeat_def send_def)
next
  case disown_due
  with assms show ?thesis by (auto simp: table_ok_def on_disown_def log_def)
qed

lemma table_ok_run: "table_ok w \<Longrightarrow> run w es = Inr w' \<Longrightarrow> table_ok w'"
proof (induction es arbitrary: w)
  case Nil
  then show ?case by simp
next
  case (Cons e es)
  from Cons.prems(2) obtain w1 where s: "step w e = Inr w1" and r: "run w1 es = Inr w'"
    by (auto split: sum.splits)
  from Cons.IH [OF table_ok_step [OF Cons.prems(1) s] r] show ?case .
qed

lemma table_ok_reachable: "run (started uuid profile now) es = Inr w \<Longrightarrow> table_ok w"
  using table_ok_run [OF table_ok_started] .


section \<open>The session table\<close>

lemma dispatch_tracks:
  assumes d: "dispatch w m r = Inr w'"
  shows "(sid \<in> dom (m_streams w')) = track sid (sid \<in> dom (m_streams w)) (received m r)"
proof (cases m)
  case recv_heartbeat
  with d show ?thesis by (auto simp: track_def)
next
  case (recv_invoke k event)
  with d show ?thesis
    by (auto simp: track_def Let_def emplace_streams call_upstream_only [THEN adapters_only_fields(1)]
        split: option.splits sum.splits if_splits)
next
  case (recv_chunk k data)
  with d show ?thesis
    by (auto simp: track_def Let_def call_upstream_only [THEN adapters_only_fields(1)]
        split: option.splits sum.splits if_splits)
next
  case (recv_choke k)
  with d show ?thesis
    by (auto simp: track_def Let_def call_upstream_only [THEN adapters_only_fields(1)]
        split: option.splits sum.splits if_splits)
next
  case recv_terminate
  with d show ?thesis by (auto simp: track_def terminate_def send_def)
next
  case (recv_unknown tag)
  with d show ?thesis by (auto simp: track_def log_def)
qed

lemma step_tracks:
  assumes "step w e = Inr w'"
  shows "(sid \<in> dom (m_streams w')) = track sid (sid \<in> dom (m_streams w)) e"
proof (cases e)
  case (received m r)
  with assms have "dispatch (log debug_priority ''worker %s received type %d message'' w) m r = Inr w'"
    by (simp add: receive_def)
  from dispatch_tracks [OF this, of sid] received show ?thesis by (simp add: log_def)
next
  case (application acts)
  with assms show ?thesis
    using adapters_only_fields(1) [OF app_steps_only] by (auto simp: track_def)
next
  case (clock t)
  with assms show ?thesis by (auto simp: track_def)
next
  case (heartbeat_due accepted)
  with assms show ?thesis by (cases accepted) (auto simp: track_def on_heartbeat_def send_def)
next
  case disown_due
  with assms show ?thesis by (auto simp: track_def on_disown_def log_def)
qed

lemma run_tracks:
  "run w es = Inr w' \<Longrightarrow>
     (sid \<in> dom (m_streams w')) = foldl (track sid) (sid \<in> dom (m_streams w)) es"
proof (induction es arbitrary: w)
  case Nil
  then show ?case by simp
next
  case (Cons e es)
  from Cons.prems obtain w1 where s: "step w e = Inr w1" and r: "run w1 es = Inr w'"
    by (auto split: sum.splits)
  from Cons.IH [OF r] step_tracks [OF s, of sid] show ?case by simp
qed

text \<open>
  The same history predicate without the fold: the last event that begins or ends the
  session begins it.
\<close>

lemma foldl_track_snoc:
  "foldl (track sid) b (es @ [e]) =
     (if begins sid e then True else if ends sid e then False else foldl (track sid) b es)"
  by (simp add: track_def)

lemma session_open_iff:
  "session_open sid es =
     (\<exists>pre e post. es = pre @ e # post \<and> begins sid e \<and>
        (\<forall>x \<in> set post. \<not> begins sid x \<and> \<not> ends sid x))"
  unfolding session_open_def
proof (induction es rule: rev_induct)
  case Nil
  show ?case by simp
next
  case (snoc x xs)
  show ?case
  proof (cases "begins sid x")
    case True
    have "xs @ [x] = xs @ x # [] \<and> begins sid x \<and> (\<forall>y \<in> set []. \<not> begins sid y \<and> \<not> ends sid y)"
      using True by simp
    then have "\<exists>pre e post. xs @ [x] = pre @ e # post \<and> begins sid e \<and>
        (\<forall>y \<in> set post. \<not> begins sid y \<and> \<not> ends sid y)"
      by blast
    with True show ?thesis by (simp only: foldl_track_snoc if_True)
  next
    case notb: False
    show ?thesis
    proof (cases "ends sid x")
      case True
      have "\<not> (\<exists>pre e post. xs @ [x] = pre @ e # post \<and> begins sid e \<and>
          (\<forall>y \<in> set post. \<not> begins sid y \<and> \<not> ends sid y))"
      proof
        assume "\<exists>pre e post. xs @ [x] = pre @ e # post \<and> begins sid e \<and>
          (\<forall>y \<in> set post. \<not> begins sid y \<and> \<not> ends sid y)"
        then obtain pre e post where eq: "xs @ [x] = pre @ e # post" and b: "begins sid e"
          and q: "\<forall>y \<in> set post. \<not> begins sid y \<and> \<not> ends sid y"
          by blast
        show False
        proof (cases post rule: rev_cases)
          case Nil
          with eq have "x = e" by simp
          with b notb show False by simp
        next
          case (snoc post' y)
          with eq have "x = y" by (metis append_Cons append_assoc snoc_eq_iff_butlast)
          with q snoc True show False by simp
        qed
      qed
      with notb True show ?thesis by (simp only: foldl_track_snoc if_True if_False)
    next
      case False
      have "(\<exists>pre e post. xs @ [x] = pre @ e # post \<and> begins sid e \<and>
              (\<forall>y \<in> set post. \<not> begins sid y \<and> \<not> ends sid y)) =
            (\<exists>pre e post. xs = pre @ e # post \<and> begins sid e \<and>
              (\<forall>y \<in> set post. \<not> begins sid y \<and> \<not> ends sid y))"
      proof
        assume "\<exists>pre e post. xs @ [x] = pre @ e # post \<and> begins sid e \<and>
              (\<forall>y \<in> set post. \<not> begins sid y \<and> \<not> ends sid y)"
        then obtain pre e post where eq: "xs @ [x] = pre @ e # post" and b: "begins sid e"
          and q: "\<forall>y \<in> set post. \<not> begins sid y \<and> \<not> ends sid y"
          by blast
        show "\<exists>pre e post. xs = pre @ e # post \<and> begins sid e \<and>
              (\<forall>y \<in> set post. \<not> begins sid y \<and> \<not> ends sid y)"
        proof (cases post rule: rev_cases)
          case Nil
          with eq have "x = e" by simp
          with b notb show ?thesis by simp
        next
          case (snoc post' y)
          with eq have "xs = pre @ e # post'" by (metis append_Cons append_assoc butlast_snoc)
          moreover from q snoc have "\<forall>y \<in> set post'. \<not> begins sid y \<and> \<not> ends sid y" by simp
          ultimately show ?thesis using b by blast
        qed
      next
        assume "\<exists>pre e post. xs = pre @ e # post \<and> begins sid e \<and>
              (\<forall>y \<in> set post. \<not> begins sid y \<and> \<not> ends sid y)"
        then obtain pre e post where eq: "xs = pre @ e # post" and b: "begins sid e"
          and q: "\<forall>y \<in> set post. \<not> begins sid y \<and> \<not> ends sid y"
          by blast
        have "xs @ [x] = pre @ e # (post @ [x])" using eq by simp
        moreover have "\<forall>y \<in> set (post @ [x]). \<not> begins sid y \<and> \<not> ends sid y"
          using q notb False by simp
        ultimately show "\<exists>pre e post. xs @ [x] = pre @ e # post \<and> begins sid e \<and>
              (\<forall>y \<in> set post. \<not> begins sid y \<and> \<not> ends sid y)"
          using b by blast
      qed
      with notb False snoc.IH show ?thesis by (simp only: foldl_track_snoc if_False)
    qed
  qed
qed

lemma foldl_track_no_end:
  "\<forall>x \<in> set post. \<not> ends sid x \<Longrightarrow> foldl (track sid) True post = True"
  by (induction post) (simp_all add: track_def)

text \<open>
  And in the words of the invariant: some event of the history begins the session, and
  no event after it ends the session.
\<close>

lemma session_open_history:
  "session_open sid es =
     (\<exists>pre e post. es = pre @ e # post \<and> begins sid e \<and> (\<forall>x \<in> set post. \<not> ends sid x))"
proof
  assume "session_open sid es"
  then obtain pre e post where "es = pre @ e # post" and "begins sid e"
    and "\<forall>x \<in> set post. \<not> begins sid x \<and> \<not> ends sid x"
    unfolding session_open_iff by blast
  then show "\<exists>pre e post. es = pre @ e # post \<and> begins sid e \<and> (\<forall>x \<in> set post. \<not> ends sid x)"
    by blast
next
  assume "\<exists>pre e post. es = pre @ e # post \<and> begins sid e \<and> (\<forall>x \<in> set post. \<not> ends sid x)"
  then obtain pre e post where es: "es = pre @ e # post" and b: "begins sid e"
    and q: "\<forall>x \<in> set post. \<not> ends sid x"
    by blast
  have "foldl (track sid) False es = foldl (track sid) True post"
    using b unfolding es by (simp add: track_def)
  with foldl_track_no_end [OF q] show "session_open sid es"
    by (simp add: session_open_def)
qed

text \<open>
  What one dispatch step does to the table, from any state: the step of a successful
  invoke completes and the session is in the table after it; the step of a choke whose
  downstream \<^verbatim>\<open>close()\<close> returns completes and the session is gone after it; and when the
  downstream throws, during a chunk or a choke, while the session's adapter is open, the
  step completes and the session is gone after it.
\<close>

lemma invoke_inserts:
  assumes "thrown r = None"
  shows "\<exists>v'. dispatch v (recv_invoke sid event) r = Inr v' \<and> sid \<in> dom (m_streams v')"
  using assms by (auto simp: Let_def emplace_streams split: option.splits)

lemma choke_erases:
  assumes "m_streams v sid = Some io" and "thrown r = None"
  shows "\<exists>v'. dispatch v (recv_choke sid) r = Inr v' \<and> sid \<notin> dom (m_streams v')"
  using assms by (simp add: Let_def)

lemma choke_fault_erases:
  assumes "m_streams v sid = Some io" and "thrown r = Some e"
    and "m_state (obj (objects (call_app (downstream_close (downstream io)) r v) (upstream io))) =
           state_open"
  shows "\<exists>v'. dispatch v (recv_choke sid) r = Inr v' \<and> sid \<notin> dom (m_streams v')"
  using assms call_error_open [OF assms(3), of invocation_error "what e"]
  by (simp add: Let_def)

lemma chunk_fault_erases:
  assumes "m_streams v sid = Some io" and "thrown r = Some e"
    and "m_state (obj (objects (call_app (downstream_push (downstream io) data) r v) (upstream io))) =
           state_open"
  shows "\<exists>v'. dispatch v (recv_chunk sid data) r = Inr v' \<and> sid \<notin> dom (m_streams v')"
  using assms call_error_open [OF assms(3), of invocation_error "what e"]
  by (simp add: Let_def)

text \<open>
  C1, as the code has it. In every state the worker reaches from its start by completed
  steps, a session identifier is in the table exactly when an invoke for it succeeded
  and no terminal event (a chunk during which the downstream threw, or a choke) was
  processed since. From any state, the dispatch step of a successful invoke completes
  and leaves the session in the table. For a session that is in the table, the dispatch
  step of a choke whose downstream \<^verbatim>\<open>close()\<close> returns completes with the entry removed;
  and when the downstream throws, during a chunk or a choke, while the session's adapter
  is still open, the step completes with the entry removed as well. (A received message
  is dispatched from the state in which the loop body has written its debug line, which
  is one of the states meant by "any".)
\<close>

theorem session_table_invariant:
  "(run (started uuid profile now) es = Inr w \<longrightarrow>
      (sid \<in> dom (m_streams w)) =
        (\<exists>pre e post. es = pre @ e # post \<and> begins sid e \<and> (\<forall>x \<in> set post. \<not> ends sid x))) \<and>
   (thrown r = None \<longrightarrow>
      (\<exists>v'. dispatch v (recv_invoke sid event) r = Inr v' \<and> sid \<in> dom (m_streams v'))) \<and>
   (\<forall>io. m_streams v sid = Some io \<longrightarrow>
      (thrown r = None \<longrightarrow>
         (\<exists>v'. dispatch v (recv_choke sid) r = Inr v' \<and> sid \<notin> dom (m_streams v'))) \<and>
      (\<forall>e. thrown r = Some e \<and>
            m_state (obj (objects (call_app (downstream_close (downstream io)) r v) (upstream io))) =
              state_open \<longrightarrow>
         (\<exists>v'. dispatch v (recv_choke sid) r = Inr v' \<and> sid \<notin> dom (m_streams v'))) \<and>
      (\<forall>e. thrown r = Some e \<and>
            m_state (obj (objects (call_app (downstream_push (downstream io) data) r v) (upstream io))) =
              state_open \<longrightarrow>
         (\<exists>v'. dispatch v (recv_chunk sid data) r = Inr v' \<and> sid \<notin> dom (m_streams v'))))"
proof (intro conjI allI impI)
  assume "run (started uuid profile now) es = Inr w"
  from run_tracks [OF this, of sid]
  show "(sid \<in> dom (m_streams w)) =
      (\<exists>pre e post. es = pre @ e # post \<and> begins sid e \<and> (\<forall>x \<in> set post. \<not> ends sid x))"
    unfolding session_open_history [symmetric]
    by (simp add: session_open_def started_def)
next
  assume "thrown r = None"
  then show "\<exists>v'. dispatch v (recv_invoke sid event) r = Inr v' \<and> sid \<in> dom (m_streams v')"
    by (rule invoke_inserts)
next
  fix io
  assume "m_streams v sid = Some io" and "thrown r = None"
  then show "\<exists>v'. dispatch v (recv_choke sid) r = Inr v' \<and> sid \<notin> dom (m_streams v')"
    by (rule choke_erases)
next
  fix io e
  assume "m_streams v sid = Some io"
    and "thrown r = Some e \<and>
      m_state (obj (objects (call_app (downstream_close (downstream io)) r v) (upstream io))) =
        state_open"
  then show "\<exists>v'. dispatch v (recv_choke sid) r = Inr v' \<and> sid \<notin> dom (m_streams v')"
    using choke_fault_erases by blast
next
  fix io e
  assume "m_streams v sid = Some io"
    and "thrown r = Some e \<and>
      m_state (obj (objects (call_app (downstream_push (downstream io) data) r v) (upstream io))) =
        state_open"
  then show "\<exists>v'. dispatch v (recv_chunk sid data) r = Inr v' \<and> sid \<notin> dom (m_streams v')"
    using chunk_fault_erases by blast
qed

theorem session_table_invariant_witness:
  "(case run example_worker
           [received (recv_invoke ''S1'' ''ping'') (returning 7),
            received (recv_chunk ''S1'' ''hello'') (returning 0)] of
      Inl x \<Rightarrow> False
    | Inr w \<Rightarrow> ''S1'' \<in> dom (m_streams w)) \<and>
   (case run example_worker
           [received (recv_invoke ''S1'' ''ping'') (returning 7),
            received (recv_chunk ''S1'' ''hello'') (returning 0),
            received (recv_choke ''S1'') (returning 0)] of
      Inl x \<Rightarrow> False
    | Inr w \<Rightarrow> ''S1'' \<notin> dom (m_streams w)) \<and>
   (\<exists>v'. dispatch example_worker (recv_invoke ''S1'' ''ping'') (returning 7) = Inr v' \<and>
      ''S1'' \<in> dom (m_streams v')) \<and>
   (\<exists>v'. dispatch (serving (returning 7)) (recv_choke ''S1'') (returning 0) = Inr v' \<and>
      ''S1'' \<notin> dom (m_streams v')) \<and>
   (\<exists>v'. dispatch (serving (returning 7)) (recv_choke ''S1'') (throwing ''boom'') = Inr v' \<and>
      ''S1'' \<notin> dom (m_streams v')) \<and>
   (\<exists>v'. dispatch (serving (returning 7)) (recv_chunk ''S1'' ''hello'') (throwing ''boom'') = Inr v' \<and>
      ''S1'' \<notin> dom (m_streams v'))"
proof -
  let ?es = "[received (recv_invoke ''S1'' ''ping'') (returning 7),
              received (recv_chunk ''S1'' ''hello'') (returning 0)]"
  obtain w where w: "run example_worker ?es = Inr w"
    by (simp add: evaluation)
  obtain v where v: "run example_worker (?es @ [received (recv_choke ''S1'') (returning 0)]) = Inr v"
    by (simp add: evaluation)
  have "session_open ''S1'' ?es"
    by (simp add: session_open_def track_def returning_def)
  with session_table_invariant
      [THEN conjunct1, rule_format, OF w [unfolded example_worker_def], of "''S1''"]
  have 1: "''S1'' \<in> dom (m_streams w)"
    unfolding session_open_history by blast
  have "\<not> session_open ''S1'' (?es @ [received (recv_choke ''S1'') (returning 0)])"
    by (simp add: session_open_def track_def returning_def)
  with session_table_invariant
      [THEN conjunct1, rule_format, OF v [unfolded example_worker_def], of "''S1''"]
  have 2: "''S1'' \<notin> dom (m_streams v)"
    unfolding session_open_history by blast
  have s: "m_streams (serving (returning 7)) ''S1'' = Some \<lparr>upstream = 0, downstream = 7\<rparr>"
    by (simp add: serving_def evaluation)
  have n: "thrown (returning 7) = None" "thrown (returning 0) = None"
    by (simp_all add: returning_def)
  have t: "thrown (throwing ''boom'') = Some (std_exception ''boom'')"
    by (simp add: throwing_def)
  have oc: "m_state (obj (objects
      (call_app (downstream_close (downstream \<lparr>upstream = 0, downstream = 7\<rparr>)) (throwing ''boom'')
         (serving (returning 7)))
      (upstream \<lparr>upstream = 0, downstream = 7\<rparr>))) = state_open"
    by (simp add: serving_def evaluation)
  have op: "m_state (obj (objects
      (call_app (downstream_push (downstream \<lparr>upstream = 0, downstream = 7\<rparr>) ''hello'')
         (throwing ''boom'') (serving (returning 7)))
      (upstream \<lparr>upstream = 0, downstream = 7\<rparr>))) = state_open"
    by (simp add: serving_def evaluation)
  note step = session_table_invariant [THEN conjunct2]
  from step [THEN conjunct1, rule_format, OF n(1)]
  have 3: "\<exists>v'. dispatch example_worker (recv_invoke ''S1'' ''ping'') (returning 7) = Inr v' \<and>
      ''S1'' \<in> dom (m_streams v')" .
  from step [THEN conjunct2, rule_format, OF s, THEN conjunct1, rule_format, OF n(2)]
  have 4: "\<exists>v'. dispatch (serving (returning 7)) (recv_choke ''S1'') (returning 0) = Inr v' \<and>
      ''S1'' \<notin> dom (m_streams v')" .
  from step [THEN conjunct2, rule_format, OF s, THEN conjunct2, THEN conjunct1, rule_format,
      OF conjI [OF t oc]]
  have 5: "\<exists>v'. dispatch (serving (returning 7)) (recv_choke ''S1'') (throwing ''boom'') = Inr v' \<and>
      ''S1'' \<notin> dom (m_streams v')" .
  from step [THEN conjunct2, rule_format, OF s, THEN conjunct2, THEN conjunct2, rule_format,
      OF conjI [OF t op]]
  have 6: "\<exists>v'. dispatch (serving (returning 7)) (recv_chunk ''S1'' ''hello'') (throwing ''boom'') = Inr v' \<and>
      ''S1'' \<notin> dom (m_streams v')" .
  from 1 2 w v have 12: "(case run example_worker ?es of Inl x \<Rightarrow> False
      | Inr w \<Rightarrow> ''S1'' \<in> dom (m_streams w)) \<and>
    (case run example_worker (?es @ [received (recv_choke ''S1'') (returning 0)]) of
       Inl x \<Rightarrow> False | Inr w \<Rightarrow> ''S1'' \<notin> dom (m_streams w))"
    by simp
  from 12 3 4 5 6 show ?thesis by simp
qed

text \<open>
  The claim C1 as written fails at a terminal event whose step does not complete. The
  sandbox closes the adapter during \<^verbatim>\<open>invoke\<close> and returns; the worker reaches a state with
  the session in the table. The choke that arrives next is a terminal event of the
  session, the downstream's \<^verbatim>\<open>close()\<close> throws, the handler's \<^verbatim>\<open>error()\<close> throws in turn, and
  the step is left by that exception before the entry is erased.
\<close>

theorem terminal_event_without_removal:
  "run example_worker [received (recv_invoke ''S1'' ''ping'') (closing_first 0 (returning 7))] =
     Inr (serving (closing_first 0 (returning 7))) \<and>
   ''S1'' \<in> dom (m_streams (serving (closing_first 0 (returning 7)))) \<and>
   ends ''S1'' (received (recv_choke ''S1'') (throwing ''boom'')) \<and>
   step (serving (closing_first 0 (returning 7))) (received (recv_choke ''S1'') (throwing ''boom'')) =
     Inl (error_t ''the stream has been closed'')"
  by (simp add: serving_def evaluation)

section \<open>Faults of the application\<close>

text \<open>
  C3, as the code has it. When the sandbox throws from \<^verbatim>\<open>invoke\<close> and the adapter just
  made is still open at that point, the handler's \<^verbatim>\<open>error()\<close> sends an error message with
  \<open>invocation_error\<close> and the exception's text, then a choke message, both for the
  session of the invoke; the adapter is closed and the table is as it was.
\<close>

theorem invoke_fault_reported:
  assumes "thrown r = Some e"
    and "m_state (obj (objects (sandbox_invoked sid event r w) (next_object w))) = state_open"
  shows "\<exists>w'. dispatch w (recv_invoke sid event) r = Inr w' \<and>
           sent w' = sent (sandbox_invoked sid event r w) @
                       [error sid invocation_error (what e), choke sid] \<and>
           m_state (obj (objects w' (next_object w))) = state_closed \<and>
           m_streams w' = m_streams w"
  using invoke_fault_sent [OF assms] .

theorem invoke_fault_reported_witness:
  "\<exists>w'. dispatch example_worker (recv_invoke ''S2'' ''bad'') (throwing ''no such event'') = Inr w' \<and>
      sent w' = [error ''S2'' invocation_error ''no such event'', choke ''S2''] \<and>
      m_streams w' ''S2'' = None"
proof -
  have t: "thrown (throwing ''no such event'') = Some (std_exception ''no such event'')"
    by (simp add: throwing_def)
  have "m_state (obj (objects
      (sandbox_invoked ''S2'' ''bad'' (throwing ''no such event'') example_worker)
      (next_object example_worker))) = state_open"
    by (simp add: evaluation)
  from invoke_fault_reported [OF t this] show ?thesis
    by (auto simp: evaluation)
qed

text \<open>
  The claim C3 as written fails for a sandbox that closes the adapter it was given and
  then throws: the choke of that \<^verbatim>\<open>close()\<close> is all that was sent, the handler's \<^verbatim>\<open>error()\<close>
  throws, and no error message goes out.
\<close>

theorem invoke_fault_after_close:
  "sent (sandbox_invoked ''S2'' ''bad'' (closing_first 0 (throwing ''no such event'')) example_worker) =
     [choke ''S2''] \<and>
   dispatch example_worker (recv_invoke ''S2'' ''bad'') (closing_first 0 (throwing ''no such event'')) =
     Inl (error_t ''the stream has been closed'')"
  by (simp add: evaluation)


text \<open>
  C4, as the code has it. A call into the application that returns leaves the dispatch
  step without an exception. When the sandbox or a downstream handle throws, the
  handler calls \<^verbatim>\<open>error()\<close> on the adapter of that session: the one just made for an
  invoke, the one in the session's pair for a chunk or a choke. If that adapter is open
  at that point, the error and the choke message go out and the step completes; if the
  application had closed it, \<^verbatim>\<open>error()\<close> throws "the stream has been closed" and that
  exception leaves the step. Being in the table does not keep an adapter open.
\<close>

theorem application_faults_caught:
  "(thrown r = None \<longrightarrow> (\<exists>w'. dispatch w m r = Inr w')) \<and>
   (\<forall>e. thrown r = Some e \<longrightarrow>
      (let w1 = sandbox_invoked sid event r w; u = obj (objects w1 (next_object w)) in
         if m_state u = state_open
         then \<exists>w'. dispatch w (recv_invoke sid event) r = Inr w' \<and>
                sent w' = sent w1 @ [error (m_id u) invocation_error (what e), choke (m_id u)]
         else dispatch w (recv_invoke sid event) r = Inl (error_t ''the stream has been closed'')) \<and>
      (\<forall>io. m_streams w sid = Some io \<longrightarrow>
         (let w1 = call_app (downstream_push (downstream io) data) r w;
              u = obj (objects w1 (upstream io)) in
            if m_state u = state_open
            then \<exists>w'. dispatch w (recv_chunk sid data) r = Inr w' \<and>
                   sent w' = sent w1 @ [error (m_id u) invocation_error (what e), choke (m_id u)]
            else dispatch w (recv_chunk sid data) r = Inl (error_t ''the stream has been closed'')) \<and>
         (let w1 = call_app (downstream_close (downstream io)) r w;
              u = obj (objects w1 (upstream io)) in
            if m_state u = state_open
            then \<exists>w'. dispatch w (recv_choke sid) r = Inr w' \<and>
                   sent w' = sent w1 @ [error (m_id u) invocation_error (what e), choke (m_id u)]
            else dispatch w (recv_choke sid) r = Inl (error_t ''the stream has been closed''))))"
proof (intro conjI allI impI)
  assume "thrown r = None"
  then show "\<exists>w'. dispatch w m r = Inr w'"
    by (cases m) (simp_all add: Let_def split: option.splits)
next
  fix e
  assume t: "thrown r = Some e"
  let ?w1 = "sandbox_invoked sid event r w"
  let ?a = "next_object w"
  show "let w1 = ?w1; u = obj (objects w1 ?a) in
         if m_state u = state_open
         then \<exists>w'. dispatch w (recv_invoke sid event) r = Inr w' \<and>
                sent w' = sent w1 @ [error (m_id u) invocation_error (what e), choke (m_id u)]
         else dispatch w (recv_invoke sid event) r = Inl (error_t ''the stream has been closed'')"
  proof (cases "m_state (obj (objects ?w1 ?a))")
    case state_open
    from invoke_fault_sent [OF t state_open] state_open show ?thesis
      by (auto simp add: Let_def simp del: dispatch.simps)
  next
    case state_closed
    from call_error_closed [OF state_closed] t state_closed show ?thesis
      by (simp add: Let_def)
  qed
next
  fix e io
  assume t: "thrown r = Some e" and s: "m_streams w sid = Some io"
  let ?w1 = "call_app (downstream_push (downstream io) data) r w"
  let ?a = "upstream io"
  show "let w1 = ?w1; u = obj (objects w1 ?a) in
            if m_state u = state_open
            then \<exists>w'. dispatch w (recv_chunk sid data) r = Inr w' \<and>
                   sent w' = sent w1 @ [error (m_id u) invocation_error (what e), choke (m_id u)]
            else dispatch w (recv_chunk sid data) r = Inl (error_t ''the stream has been closed'')"
  proof (cases "m_state (obj (objects ?w1 ?a))")
    case state_open
    from call_error_open [OF state_open] t s state_open show ?thesis
      by (simp add: Let_def erase_def unref_sent)
  next
    case state_closed
    from call_error_closed [OF state_closed] t s state_closed show ?thesis
      by (simp add: Let_def)
  qed
next
  fix e io
  assume t: "thrown r = Some e" and s: "m_streams w sid = Some io"
  let ?w1 = "call_app (downstream_close (downstream io)) r w"
  let ?a = "upstream io"
  show "let w1 = ?w1; u = obj (objects w1 ?a) in
            if m_state u = state_open
            then \<exists>w'. dispatch w (recv_choke sid) r = Inr w' \<and>
                   sent w' = sent w1 @ [error (m_id u) invocation_error (what e), choke (m_id u)]
            else dispatch w (recv_choke sid) r = Inl (error_t ''the stream has been closed'')"
  proof (cases "m_state (obj (objects ?w1 ?a))")
    case state_open
    from call_error_open [OF state_open] t s state_open show ?thesis
      by (simp add: Let_def erase_def unref_sent)
  next
    case state_closed
    from call_error_closed [OF state_closed] t s state_closed show ?thesis
      by (simp add: Let_def)
  qed
qed

theorem application_faults_caught_witness:
  "(\<exists>w'. dispatch (serving (returning 7)) (recv_chunk ''S1'' ''hello'') (returning 0) = Inr w') \<and>
   (\<exists>w'. dispatch (serving (returning 7)) (recv_chunk ''S1'' ''hello'') (throwing ''boom'') = Inr w' \<and>
      sent w' = [error ''S1'' invocation_error ''boom'', choke ''S1'']) \<and>
   dispatch (serving (closing_first 0 (returning 7))) (recv_chunk ''S1'' ''hello'') (throwing ''boom'') =
     Inl (error_t ''the stream has been closed'')"
proof -
  have 1: "\<exists>w'. dispatch (serving (returning 7)) (recv_chunk ''S1'' ''hello'') (returning 0) = Inr w'"
    using application_faults_caught
      [of "returning 0" "serving (returning 7)" "recv_chunk ''S1'' ''hello''"]
    by (simp add: returning_def)
  have s: "m_streams (serving (returning 7)) ''S1'' = Some \<lparr>upstream = 0, downstream = 7\<rparr>"
    by (simp add: serving_def evaluation)
  have s': "m_streams (serving (closing_first 0 (returning 7))) ''S1'' =
      Some \<lparr>upstream = 0, downstream = 7\<rparr>"
    by (simp add: serving_def evaluation)
  have t: "thrown (throwing ''boom'') = Some (std_exception ''boom'')"
    by (simp add: throwing_def)
  have 2: "\<exists>w'. dispatch (serving (returning 7)) (recv_chunk ''S1'' ''hello'') (throwing ''boom'') = Inr w' \<and>
      sent w' = [error ''S1'' invocation_error ''boom'', choke ''S1'']"
    using application_faults_caught
      [of "throwing ''boom''" "serving (returning 7)" _ "''S1''" _ "''hello''"] s t
    by (simp add: serving_def evaluation)
  have 3: "dispatch (serving (closing_first 0 (returning 7))) (recv_chunk ''S1'' ''hello'')
      (throwing ''boom'') = Inl (error_t ''the stream has been closed'')"
    using application_faults_caught
      [of "throwing ''boom''" "serving (closing_first 0 (returning 7))" _ "''S1''" _ "''hello''"] s' t
    by (simp add: serving_def evaluation)
  from 1 2 3 show ?thesis by blast
qed

text \<open>
  The claim C4 as written fails. The sandbox closes the adapter during \<^verbatim>\<open>invoke\<close> and
  returns a handle: the session is in the table with a closed adapter. When the choke
  arrives and the downstream's \<^verbatim>\<open>close()\<close> throws, the handler's \<^verbatim>\<open>error()\<close> throws in turn
  and the exception leaves the dispatch step.
\<close>

theorem closed_adapter_in_table:
  "m_streams (serving (closing_first 0 (returning 7))) ''S1'' =
     Some \<lparr>upstream = 0, downstream = 7\<rparr> \<and>
   m_state (obj (objects (serving (closing_first 0 (returning 7))) 0)) = state_closed \<and>
   run example_worker
     [received (recv_invoke ''S1'' ''ping'') (closing_first 0 (returning 7)),
      received (recv_choke ''S1'') (throwing ''boom'')] =
     Inl (error_t ''the stream has been closed'')"
  by (simp add: serving_def evaluation)


section \<open>Chunks and chokes\<close>

text \<open>
  C6, as the code has it. For a chunk message whose session is in the table of a worker
  reached from its start, the bytes are passed to \<^verbatim>\<open>push\<close> of that session's downstream
  handle. If \<^verbatim>\<open>push\<close> returns, the step ends there and the table is as it was. If \<^verbatim>\<open>push\<close>
  throws while the session's adapter is open, \<^verbatim>\<open>error()\<close> sends an error message with
  \<open>invocation_error\<close> and the exception's text, then a choke message, both for this
  session, and the session is erased from the table.
\<close>

theorem chunk_forwarded:
  assumes "run (started uuid profile now) es = Inr w" and "m_streams w sid = Some io"
  shows "let w1 = call_app (downstream_push (downstream io) data) r w in
     into_app w1 = into_app w @ [downstream_push (downstream io) data] \<and>
     (thrown r = None \<longrightarrow>
        dispatch w (recv_chunk sid data) r = Inr w1 \<and> m_streams w1 = m_streams w) \<and>
     (\<forall>e. thrown r = Some e \<and> m_state (obj (objects w1 (upstream io))) = state_open \<longrightarrow>
        (\<exists>w'. dispatch w (recv_chunk sid data) r = Inr w' \<and>
           sent w' = sent w1 @ [error sid invocation_error (what e), choke sid] \<and>
           m_streams w' = (m_streams w)(sid := None)))"
proof -
  let ?w1 = "call_app (downstream_push (downstream io) data) r w"
  from assms have "m_id (obj (objects w (upstream io))) = sid"
    using table_ok_reachable by (auto simp: table_ok_def)
  then have id: "m_id (obj (objects ?w1 (upstream io))) = sid" by simp
  have 1: "into_app ?w1 = into_app w @ [downstream_push (downstream io) data]" by simp
  have 2: "thrown r = None \<longrightarrow>
      dispatch w (recv_chunk sid data) r = Inr ?w1 \<and> m_streams ?w1 = m_streams w"
    using assms(2) by (simp add: Let_def)
  have 3: "\<forall>e. thrown r = Some e \<and> m_state (obj (objects ?w1 (upstream io))) = state_open \<longrightarrow>
      (\<exists>w'. dispatch w (recv_chunk sid data) r = Inr w' \<and>
         sent w' = sent ?w1 @ [error sid invocation_error (what e), choke sid] \<and>
         m_streams w' = (m_streams w)(sid := None))"
  proof (intro allI impI)
    fix e
    assume a: "thrown r = Some e \<and> m_state (obj (objects ?w1 (upstream io))) = state_open"
    from call_error_open [of ?w1 "upstream io" invocation_error "what e"] a assms(2) id
    show "\<exists>w'. dispatch w (recv_chunk sid data) r = Inr w' \<and>
         sent w' = sent ?w1 @ [error sid invocation_error (what e), choke sid] \<and>
         m_streams w' = (m_streams w)(sid := None)"
      by (simp add: Let_def erase_def unref_sent)
  qed
  from 1 2 3 show ?thesis unfolding Let_def by blast
qed

theorem chunk_forwarded_witness:
  "into_app (call_app (downstream_push 7 ''hello'') (returning 0) (serving (returning 7))) =
     [sandbox_invoke ''ping'' 0, downstream_push 7 ''hello''] \<and>
   dispatch (serving (returning 7)) (recv_chunk ''S1'' ''hello'') (returning 0) =
     Inr (call_app (downstream_push 7 ''hello'') (returning 0) (serving (returning 7))) \<and>
   (\<exists>w'. dispatch (serving (returning 7)) (recv_chunk ''S1'' ''hello'') (throwing ''boom'') = Inr w' \<and>
      sent w' = [error ''S1'' invocation_error ''boom'', choke ''S1''] \<and>
      m_streams w' ''S1'' = None)"
proof -
  have r: "run (started ''worker-1'' \<lparr>heartbeat_timeout = 30\<rparr> 0)
      [received (recv_invoke ''S1'' ''ping'') (returning 7)] = Inr (serving (returning 7))"
    by (simp add: serving_def evaluation)
  have s: "m_streams (serving (returning 7)) ''S1'' = Some \<lparr>upstream = 0, downstream = 7\<rparr>"
    by (simp add: serving_def evaluation)
  from chunk_forwarded [OF r s, of "''hello''" "returning 0"]
  have 1: "into_app (call_app (downstream_push 7 ''hello'') (returning 0) (serving (returning 7))) =
      [sandbox_invoke ''ping'' 0, downstream_push 7 ''hello''] \<and>
    dispatch (serving (returning 7)) (recv_chunk ''S1'' ''hello'') (returning 0) =
      Inr (call_app (downstream_push 7 ''hello'') (returning 0) (serving (returning 7)))"
    by (simp add: serving_def evaluation)
  from chunk_forwarded [OF r s, of "''hello''" "throwing ''boom''"]
  have 2: "\<exists>w'. dispatch (serving (returning 7)) (recv_chunk ''S1'' ''hello'') (throwing ''boom'') = Inr w' \<and>
      sent w' = [error ''S1'' invocation_error ''boom'', choke ''S1''] \<and>
      m_streams w' ''S1'' = None"
    by (simp add: serving_def evaluation)
  from 1 2 show ?thesis by blast
qed

text \<open>
  The claim C6 as written fails when the application has closed the session's adapter
  before the downstream's \<^verbatim>\<open>push\<close> throws: \<^verbatim>\<open>error()\<close> throws, no error message goes out and
  the \<^verbatim>\<open>erase\<close> is not reached.
\<close>

theorem chunk_fault_after_close:
  "m_streams (serving (closing_first 0 (returning 7))) ''S1'' =
     Some \<lparr>upstream = 0, downstream = 7\<rparr> \<and>
   dispatch (serving (closing_first 0 (returning 7))) (recv_chunk ''S1'' ''hello'')
     (throwing ''boom'') = Inl (error_t ''the stream has been closed'')"
  by (simp add: serving_def evaluation)

text \<open>
  C9. A chunk or a choke message for a session identifier that is not in the table is
  dropped: the dispatch step raises nothing and returns the worker exactly as it was,
  so nothing is sent, the application is not called, and the table and every other
  field are unchanged. (The step is the \<^verbatim>\<open>switch\<close>; the loop body wrote its debug line to
  the log before it, as for every message.)
\<close>

theorem unknown_session_dropped:
  "m_streams w sid = None \<Longrightarrow>
     dispatch w (recv_chunk sid data) r = Inr w \<and> dispatch w (recv_choke sid) r = Inr w"
  by simp

theorem unknown_session_dropped_witness:
  "m_streams (serving (returning 7)) ''S9'' = None \<and>
   dispatch (serving (returning 7)) (recv_chunk ''S9'' ''late'') (throwing ''boom'') =
     Inr (serving (returning 7)) \<and>
   dispatch (serving (returning 7)) (recv_choke ''S9'') (throwing ''boom'') =
     Inr (serving (returning 7))"
proof -
  have s: "m_streams (serving (returning 7)) ''S9'' = None"
    by (simp add: serving_def evaluation)
  from unknown_session_dropped [OF s] s show ?thesis by blast
qed

section \<open>The timers\<close>

text \<open>
  C7. Dispatching a heartbeat message stops the disown timer and starts it again with
  the profile's heartbeat timeout: whatever the timer was, it is then active and due
  at the loop's current time plus that timeout. No other field of the worker changes
  and nothing is raised. (The step is the \<^verbatim>\<open>switch\<close>; the loop body wrote its debug line to
  the log before it, as for every message.)
\<close>

theorem heartbeat_restarts_disown_timer:
  "dispatch w recv_heartbeat r =
     Inr (w\<lparr>m_disown_timer :=
       \<lparr>active = True, fires_at = loop_now w + heartbeat_timeout (m_profile w)\<rparr>\<rparr>)"
  by (simp add: timer_start_def timer_stop_def)

text \<open>
  C8. When the disown timer fires, the worker writes one log line at error priority,
  that it has lost the controlling engine, and stops the event loop. Nothing is sent on
  that path, no suicide message and no other, and nothing else changes.
\<close>

theorem disown_stops_silently:
  "on_disown w =
     w\<lparr>logged := logged w @ [(error_priority, ''worker %s has lost the controlling engine'')],
       loop_running := False\<rparr> \<and>
   sent (on_disown w) = sent w \<and>
   loop_running (on_disown w) = False \<and>
   step w disown_due = Inr (on_disown w)"
  by (simp add: on_disown_def log_def)


section \<open>An invoke for a session that is in the table\<close>

lemma unref_app_ref [simp]: "app_ref (objects (unref a w) b) = app_ref (objects w b)"
  by (simp add: unref_def)

text \<open>
  C10. In a worker reached from its start, an invoke message for a session identifier
  that is in the table, from which the sandbox returns, leaves the table as it was:
  \<^verbatim>\<open>emplace\<close> keeps the pair that is there. The new pair is not stored: no pair of the
  table names the new adapter, and the worker holds no pointer to it once the case is
  left. If the new adapter is still open when the sandbox returns, it sends a choke
  message for that session identifier when it is destroyed: at the end of the step when
  the sandbox did not keep its pointer, and otherwise when the application lets its
  pointer go, which is shown here for a release right after the step.
\<close>

theorem duplicate_invoke_discarded:
  assumes "run (started uuid profile now) es = Inr w"
    and "m_streams w sid = Some old" and "thrown r = None"
  shows "\<exists>w'. dispatch w (recv_invoke sid event) r = Inr w' \<and>
     m_streams w' = m_streams w \<and>
     (\<forall>k io. m_streams w' k = Some io \<longrightarrow> upstream io \<noteq> next_object w) \<and>
     worker_refs (objects w' (next_object w)) = 0 \<and>
     (let w1 = sandbox_invoked sid event r w in
        m_state (obj (objects w1 (next_object w))) = state_open \<longrightarrow>
          (if retains r
           then sent w' = sent w1 \<and>
                sent (app_step w' (app_release (next_object w))) = sent w' @ [choke sid]
           else sent w' = sent w1 @ [choke sid]))"
proof -
  let ?a = "next_object w"
  let ?w1 = "sandbox_invoked sid event r w"
  let ?w' = "unref ?a ?w1"
  have e: "emplace sid \<lparr>upstream = ?a, downstream = returned r\<rparr> ?w1 = ?w1"
    using assms(2) by (simp add: emplace_def)
  have d: "dispatch w (recv_invoke sid event) r = Inr ?w'"
    using assms(3) e by (simp add: Let_def)
  have t: "m_streams ?w' = m_streams w" by simp
  have n: "\<forall>k io. m_streams ?w' k = Some io \<longrightarrow> upstream io \<noteq> ?a"
  proof (intro allI impI)
    fix k io
    assume "m_streams ?w' k = Some io"
    then have "m_streams w k = Some io" by simp
    with table_ok_reachable [OF assms(1)] have "upstream io < ?a"
      by (auto simp: table_ok_def)
    then show "upstream io \<noteq> ?a" by simp
  qed
  have c: "worker_refs (objects ?w' ?a) = 0" by (simp add: unref_refs)
  have s: "m_state (obj (objects ?w1 ?a)) = state_open \<longrightarrow>
          (if retains r
           then sent ?w' = sent ?w1 \<and> sent (app_step ?w' (app_release ?a)) = sent ?w' @ [choke sid]
           else sent ?w' = sent ?w1 @ [choke sid])"
    by (simp add: unref_sent reap_sent unref_refs unref_state)
  from d t n c s show ?thesis unfolding Let_def by blast
qed

theorem duplicate_invoke_discarded_witness:
  "\<exists>w'. dispatch (serving (returning 7)) (recv_invoke ''S1'' ''ping'')
            \<lparr>calls = [], thrown = None, returned = 8, retains = False\<rparr> = Inr w' \<and>
      m_streams w' ''S1'' = Some \<lparr>upstream = 0, downstream = 7\<rparr> \<and>
      worker_refs (objects w' 1) = 0 \<and>
      sent w' = [choke ''S1'']"
proof -
  have r: "run (started ''worker-1'' \<lparr>heartbeat_timeout = 30\<rparr> 0)
      [received (recv_invoke ''S1'' ''ping'') (returning 7)] = Inr (serving (returning 7))"
    by (simp add: serving_def evaluation)
  have s: "m_streams (serving (returning 7)) ''S1'' = Some \<lparr>upstream = 0, downstream = 7\<rparr>"
    by (simp add: serving_def evaluation)
  have n: "next_object (serving (returning 7)) = Suc 0"
    by (simp add: serving_def evaluation)
  have o: "m_state (obj (objects (sandbox_invoked ''S1'' ''ping''
        \<lparr>calls = [], thrown = None, returned = 8, retains = False\<rparr> (serving (returning 7)))
        (Suc 0))) = state_open"
    by (simp add: serving_def evaluation)
  have q: "sent (sandbox_invoked ''S1'' ''ping''
        \<lparr>calls = [], thrown = None, returned = 8, retains = False\<rparr> (serving (returning 7))) = []"
    by (simp add: serving_def evaluation)
  from duplicate_invoke_discarded [OF r s, of "\<lparr>calls = [], thrown = None, returned = 8, retains = False\<rparr>" "''ping''"]
  show ?thesis
    by (auto simp: n o q s Let_def simp del: dispatch.simps)
qed

section \<open>The drain loop\<close>

lemma c_int_id: "- 2147483648 \<le> x \<Longrightarrow> x \<le> 2147483647 \<Longrightarrow> c_int x = x"
  by (simp add: c_int_def)

lemma process_loop_Suc:
  "int (Suc k) \<le> 2147483647 \<Longrightarrow>
   process_loop (int (Suc k)) queue w =
     (case dispatch_each w (take (Suc k) queue) of
        Inl x \<Rightarrow> Inl x
      | Inr w' \<Rightarrow>
          Inr (if Suc k \<le> length queue then w'\<lparr>read_event_fed := True\<rparr> else w',
               drop (Suc k) queue))"
proof (induction queue arbitrary: k w)
  case Nil
  show ?case by simp
next
  case (Cons mr queue)
  obtain m r where mr: "mr = (m, r)" by (cases mr)
  show ?case
  proof (cases "receive w m r")
    case (Inl x)
    with mr show ?thesis by simp
  next
    case (Inr w')
    show ?thesis
    proof (cases k)
      case 0
      have "c_int (int (Suc 0) - 1) = 0" by (simp add: c_int_def)
      with 0 mr Inr show ?thesis by (simp del: of_nat_Suc)
    next
      case (Suc j)
      from Cons.prems Suc have small: "int (Suc j) \<le> 2147483647" by simp
      have "int (Suc (Suc j)) - 1 = int (Suc j)" by simp
      moreover have "c_int (int (Suc j)) = int (Suc j)"
        using small by (intro c_int_id) simp_all
      ultimately have eq: "c_int (int (Suc (Suc j)) - 1) = int (Suc j)" by simp
      have ne: "int (Suc j) \<noteq> 0" by simp
      have "process_loop (int (Suc (Suc j))) ((m, r) # queue) w =
          process_loop (int (Suc j)) queue w'"
        using Inr ne by (simp only: process_loop.simps sum.case eq if_True simp_thms)
      with Cons.IH [OF small, of w'] Inr show ?thesis
        unfolding mr Suc by (simp del: of_nat_Suc process_loop.simps split: sum.splits)
    qed
  qed
qed

lemma process_loop_take:
  assumes "0 < n" and "n \<le> 2147483647"
  shows "process_loop n queue w =
       (case dispatch_each w (take (nat n) queue) of
          Inl x \<Rightarrow> Inl x
        | Inr w' \<Rightarrow>
            Inr (if nat n \<le> length queue then w'\<lparr>read_event_fed := True\<rparr> else w',
                 drop (nat n) queue))"
proof -
  from assms(1) obtain k where k: "nat n = Suc k" by (cases "nat n") auto
  with assms(1) have n: "n = int (Suc k)" by linarith
  from assms(2) n have "int (Suc k) \<le> 2147483647" by simp
  then show ?thesis unfolding k unfolding n by (rule process_loop_Suc)
qed

text \<open>
  C5. With a positive bulk size that fits the \<^verbatim>\<open>int\<close> counter, one pass of the drain loop dispatches the first
  \<open>io_bulk_size\<close> messages of the queue, in order, and no others; what it leaves in the
  channel is the rest of the queue, so no message is lost or dispatched twice and the
  next pass goes on from there. When the queue holds at least \<open>io_bulk_size\<close> messages the
  pass dispatches exactly that many and feeds the read event to the loop again; when it
  holds fewer, the pass dispatches all of them and returns when \<^verbatim>\<open>recv\<close> yields nothing,
  feeding no event. A dispatch that throws ends the pass with its exception.
\<close>

theorem drain_loop_bounded:
  "0 < io_bulk_size \<Longrightarrow> io_bulk_size \<le> INT_MAX \<Longrightarrow>
     process io_bulk_size queue w =
       (case dispatch_each w (take (nat io_bulk_size) queue) of
          Inl x \<Rightarrow> Inl x
        | Inr w' \<Rightarrow>
            Inr (if nat io_bulk_size \<le> length queue then w'\<lparr>read_event_fed := True\<rparr> else w',
                 drop (nat io_bulk_size) queue)) \<and>
     length (take (nat io_bulk_size) queue) = min (length queue) (nat io_bulk_size) \<and>
     take (nat io_bulk_size) queue @ drop (nat io_bulk_size) queue = queue"
  by (simp add: process_def INT_MAX_def c_int_id process_loop_take)

theorem drain_loop_bounded_witness:
  "(\<exists>w'. process 2
      [(recv_heartbeat, returning 0), (recv_unknown 99, returning 0), (recv_terminate, returning 0)]
      example_worker = Inr (w', [(recv_terminate, returning 0)]) \<and>
      read_event_fed w' \<and> length (logged w') = 3 \<and> sent w' = []) \<and>
   (\<exists>w'. process 2 [(recv_terminate, returning 0)] example_worker = Inr (w', []) \<and>
      \<not> read_event_fed w' \<and> sent w' = [suicide normal ''per request''])"
proof -
  have "(0::int) < 2" and "(2::int) \<le> INT_MAX" by (simp_all add: INT_MAX_def)
  from drain_loop_bounded [OF this, of _ example_worker] show ?thesis
    by (simp add: evaluation)
qed

end
